theory Spec2Isabelle
  imports Main "HOL-Library.Word"
begin

section \<open>The WiredTiger recovery unit\<close>

text \<open>
  A shallow embedding of \<^verbatim>\<open>src/mongo/db/storage/wiredtiger/wiredtiger_recovery_unit.cpp\<close>.
  The recovery unit is a record of its member variables. Everything it shares with the rest
  of the process (the atomic snapshot-id counter, and the calls it makes into the session,
  the session cache, the snapshot manager, the oplog manager and the registered change
  handlers) lives in a second record, the world. The answers of the collaborators to the
  calls of one operation are the fields of an environment record passed to that operation.
\<close>

subsection \<open>Data\<close>

text \<open>
  A \<^verbatim>\<open>Timestamp\<close> is an unsigned 64-bit value (\<^verbatim>\<open>asULL\<close>); the default-constructed
  \<^verbatim>\<open>Timestamp()\<close> is the null timestamp 0.
\<close>

type_synonym Timestamp = "64 word"

definition isNull :: "Timestamp \<Rightarrow> bool" where
  "isNull t = (t = 0)"

datatype State =
  kInactive | kInactiveInUnitOfWork | kActiveNotInUnitOfWork | kActive | kCommitting | kAborting

datatype ReadSource =
  kUnset | kNoTimestamp | kMajorityCommitted | kLastApplied | kLastAppliedSnapshot
  | kAllCommittedSnapshot | kProvided

datatype IgnorePrepared = kNoIgnore | kIgnore

datatype ErrorCodes =
  BadValue | SnapshotTooOld | ReadConcernMajorityNotAvailableYet | UnknownError | OtherError nat

text \<open>
  The reason of a status is a string built by the source; the message that is built from a
  timestamp keeps the timestamp instead of its rendering.
\<close>

datatype Reason = Message string | ReadTimestampTooOld Timestamp

datatype Status = StatusOK | StatusError ErrorCodes Reason

fun isOK :: "Status \<Rightarrow> bool" where
  "isOK StatusOK = True"
| "isOK (StatusError c r) = False"

fun code :: "Status \<Rightarrow> ErrorCodes option" where
  "code StatusOK = None"
| "code (StatusError c r) = Some c"

text \<open>A change handler is identified by the pointer handed to \<^verbatim>\<open>registerChange\<close>.\<close>

type_synonym Change = nat

text \<open>
  The calls a recovery unit makes into its collaborators, in the order they happen.
  \<^verbatim>\<open>BeginTransaction\<close>, \<^verbatim>\<open>SetReadTimestamp\<close>, \<^verbatim>\<open>TxnBlockDone\<close> and
  \<^verbatim>\<open>TxnBlockRollback\<close> are the constructor, \<^verbatim>\<open>setTimestamp\<close>, \<^verbatim>\<open>done\<close> and the
  destructor of a \<^verbatim>\<open>WiredTigerBeginTxnBlock\<close>; \<^verbatim>\<open>TimestampTransaction t\<close> is
  \<^verbatim>\<open>timestamp_transaction\<close> with the configuration \<^verbatim>\<open>commit_timestamp=\<close> followed by \<open>t\<close> in
  hexadecimal, \<^verbatim>\<open>PrepareTransaction t\<close> is \<^verbatim>\<open>prepare_transaction\<close> with
  \<^verbatim>\<open>prepare_timestamp=\<close> followed by \<open>t\<close>.
\<close>

datatype Event =
    SessionCacheGetSession
  | BeginTransaction IgnorePrepared
  | SetReadTimestamp Timestamp bool
  | TxnBlockDone
  | TxnBlockRollback
  | BeginTransactionOnCommittedSnapshot IgnorePrepared
  | BeginTransactionOnLocalSnapshot IgnorePrepared
  | QueryReadTimestamp
  | TimestampTransaction Timestamp
  | PrepareTransaction Timestamp
  | CommitTransaction
  | RollbackTransaction
  | TriggerJournalFlush
  | NotifyPreparedUnitOfWorkHasCommittedOrAborted
  | ChangeCommit Change "Timestamp option"
  | ChangeRollback Change
  | WaitUntilDurable bool bool
  | CloseAllCursors
  | DropQueuedIdentsAtSessionEndAllowed bool
  | SnapshotIdAssigned "64 word"

text \<open>
  The process-wide part: \<^verbatim>\<open>AtomicUInt64 nextSnapshotId{1}\<close> and the trace of calls.
  \<^verbatim>\<open>SnapshotIdAssigned\<close> records each value that \<^verbatim>\<open>fetchAndAdd\<close> hands out.
\<close>

record World =
  nextSnapshotId :: "64 word"
  events :: "Event list"

text \<open>The member variables of \<^verbatim>\<open>WiredTigerRecoveryUnit\<close>, without the leading underscore.\<close>

record RecoveryUnit =
  state :: State
  session :: bool
  mySnapshotId :: "64 word"
  changes :: "Change list"
  commitTimestamp :: Timestamp
  lastTimestampSet :: "Timestamp option"
  prepareTimestamp :: Timestamp
  readAtTimestamp :: Timestamp
  majorityCommittedSnapshot :: Timestamp
  timestampReadSource :: ReadSource
  ignorePrepared :: IgnorePrepared
  isOplogReader :: bool
  orderedCommit :: bool
  isTimestamped :: bool
  timer :: bool

text \<open>
  What the collaborators answer during one operation: the return codes of the session's
  transaction calls, the status of \<^verbatim>\<open>WiredTigerBeginTxnBlock::setTimestamp\<close>, the values
  read from the oplog manager and the snapshot manager, whether the slow-transaction log
  level is enabled, whether the fail point \<^verbatim>\<open>WTAlwaysNotifyPrepareConflictWaiters\<close> is
  armed, which change handlers throw, and the error code \<^verbatim>\<open>wtRCToStatus\<close> gives to a
  non-zero return code.
\<close>

record Env =
  commit_rc :: int
  rollback_rc :: int
  timestamp_rc :: int
  prepare_rc :: int
  query_rc :: int
  parseStatus :: Status
  queriedReadTimestamp :: "64 word"
  readTimestampStatus :: Status
  oplogReadTimestamp :: "64 word"
  allCommittedValue :: "64 word"
  committedSnapshot :: Timestamp
  localSnapshot :: "Timestamp option"
  localSnapshotUsed :: Timestamp
  minSnapshotForNextCommittedRead :: "Timestamp option"
  shouldLogSlow :: bool
  alwaysNotifyPrepareConflictWaiters :: bool
  changeThrows :: "Change \<Rightarrow> bool"
  rcCode :: "int \<Rightarrow> ErrorCodes"

text \<open>
  An operation returns, throws a status (\<^verbatim>\<open>uassert\<close>) and leaves the recovery unit as it
  was at the throw, or ends the process (\<^verbatim>\<open>invariant\<close>, \<^verbatim>\<open>fassert\<close>,
  \<^verbatim>\<open>std::terminate\<close>); the world at that moment is kept.
\<close>

datatype FatalKind = Invariant | InvariantWTOK | Fassert nat | Terminate | NullSession

datatype 'r Outcome =
    Returned 'r World RecoveryUnit
  | Threw Status World RecoveryUnit
  | Fatal FatalKind World

subsection \<open>Helpers\<close>

definition emit :: "Event \<Rightarrow> World \<Rightarrow> World" where
  "emit e w = w\<lparr>events := events w @ [e]\<rparr>"

text \<open>\<^verbatim>\<open>nextSnapshotId.fetchAndAdd(1)\<close>: the old value, and the counter one further (mod \<open>2^64\<close>).\<close>

definition fetchAndAdd :: "World \<Rightarrow> 64 word \<times> World" where
  "fetchAndAdd w =
     (nextSnapshotId w,
      emit (SnapshotIdAssigned (nextSnapshotId w)) (w\<lparr>nextSnapshotId := nextSnapshotId w + 1\<rparr>))"

definition isActive :: "RecoveryUnit \<Rightarrow> bool" where
  "isActive s = (state s = kActiveNotInUnitOfWork \<or> state s = kActive)"

definition inUnitOfWork :: "RecoveryUnit \<Rightarrow> bool" where
  "inUnitOfWork s = (state s = kInactiveInUnitOfWork \<or> state s = kActive)"

definition isCommittingOrAborting :: "RecoveryUnit \<Rightarrow> bool" where
  "isCommittingOrAborting s = (state s = kCommitting \<or> state s = kAborting)"

definition setState :: "State \<Rightarrow> RecoveryUnit \<Rightarrow> RecoveryUnit" where
  "setState newState s = s\<lparr>state := newState\<rparr>"

text \<open>
  Modelled from the spec: \<^verbatim>\<open>wtRCToStatus\<close> (wiredtiger_util) is not among the sources; a
  zero return code is OK, any other is the engine's (non-fatal) error status.
\<close>

definition wtRCToStatus :: "Env \<Rightarrow> int \<Rightarrow> string \<Rightarrow> Status" where
  "wtRCToStatus env rc prefix =
     (if rc = 0 then StatusOK else StatusError (rcCode env rc) (Message prefix))"

text \<open>The world an operation leaves behind, however it ends.\<close>

fun worldOf :: "'r Outcome \<Rightarrow> World" where
  "worldOf (Returned r w s) = w"
| "worldOf (Threw st w s) = w"
| "worldOf (Fatal k w) = w"

text \<open>The events a world has gained since an earlier one.\<close>

definition newEvents :: "World \<Rightarrow> World \<Rightarrow> Event list" where
  "newEvents w w' = drop (length (events w)) (events w')"

fun isChangeEvent :: "Event \<Rightarrow> bool" where
  "isChangeEvent (ChangeCommit c t) = True"
| "isChangeEvent (ChangeRollback c) = True"
| "isChangeEvent e = False"

subsection \<open>Construction\<close>

text \<open>
  Lines 91-95. The constructor's initialiser list sets the session cache, the oplog manager
  and the snapshot id.
  Modelled from the spec: the default member initialisers are in the header, which is not
  among the sources; section 3 gives \<open>state\<close> Inactive and \<open>orderedCommit\<close> true, the other
  members are empty, false, \<open>Unset\<close> and not ignoring prepared.
\<close>

definition constructor :: "World \<Rightarrow> World \<times> RecoveryUnit" where
  "constructor w =
     (let (sid, w') = fetchAndAdd w in
      (w', \<lparr>state = kInactive, session = False, mySnapshotId = sid, changes = [],
            commitTimestamp = 0, lastTimestampSet = None, prepareTimestamp = 0,
            readAtTimestamp = 0, majorityCommittedSnapshot = 0,
            timestampReadSource = kUnset, ignorePrepared = kNoIgnore,
            isOplogReader = False, orderedCommit = True, isTimestamped = False,
            timer = False\<rparr>))"

definition initialWorld :: World where
  "initialWorld = \<lparr>nextSnapshotId = 1, events = []\<rparr>"

subsection \<open>Closing a transaction\<close>

text \<open>
  Lines 281-295 of \<^verbatim>\<open>_txnClose\<close>: apply the commit timestamp, then commit or roll back. The
  result is \<^verbatim>\<open>wtRet\<close>. A failing \<^verbatim>\<open>timestamp_transaction\<close> or rollback is fatal here.
\<close>

definition txnCloseEngine :: "Env \<Rightarrow> bool \<Rightarrow> World \<Rightarrow> RecoveryUnit \<Rightarrow> int Outcome" where
  "txnCloseEngine env commit w s =
     (if commit then
        (if \<not> isNull (commitTimestamp s) then
           (let w1 = emit (TimestampTransaction (commitTimestamp s)) w in
            if timestamp_rc env \<noteq> 0 then Fatal InvariantWTOK w1
            else Returned (commit_rc env) (emit CommitTransaction w1) (s\<lparr>isTimestamped := True\<rparr>))
         else Returned (commit_rc env) (emit CommitTransaction w) s)
      else
        (let w1 = emit RollbackTransaction w in
         if rollback_rc env \<noteq> 0 then Fatal Invariant w1
         else Returned (rollback_rc env) w1 s))"

text \<open>Lines 297-323: the oplog visibility hook, the checks and the reset of the members.\<close>

definition txnCloseFinish :: "int \<Rightarrow> World \<Rightarrow> RecoveryUnit \<Rightarrow> unit Outcome" where
  "txnCloseFinish wtRet w s =
     (let w1 = (if isTimestamped s \<and> \<not> orderedCommit s then emit TriggerJournalFlush w else w);
          s1 = (if isTimestamped s then s\<lparr>isTimestamped := False\<rparr> else s)
      in if wtRet \<noteq> 0 then Fatal InvariantWTOK w1
         else if \<not> (lastTimestampSet s1 = None \<or> isNull (commitTimestamp s1))
           then Fatal Invariant w1
         else
           (let (sid, w2) = fetchAndAdd w1 in
            Returned () w2
              (s1\<lparr>lastTimestampSet := None, prepareTimestamp := 0, mySnapshotId := sid,
                  isOplogReader := False, orderedCommit := True\<rparr>)))"

text \<open>
  \<^verbatim>\<open>_txnClose\<close>, lines 268-324. \<^verbatim>\<open>_session->getSession()\<close> on an absent session is a null
  dereference; the model ends the process there. The slow-transaction line of lines 271-279
  and the other \<^verbatim>\<open>LOG\<close> statements of the file only write to the log and are left out.
\<close>

definition txnClose :: "Env \<Rightarrow> bool \<Rightarrow> World \<Rightarrow> RecoveryUnit \<Rightarrow> unit Outcome" where
  "txnClose env commit w s =
     (if \<not> isActive s then Fatal Invariant w
      else if \<not> session s then Fatal NullSession w
      else
        (case txnCloseEngine env commit w s of
           Returned wtRet w1 s1 \<Rightarrow> txnCloseFinish wtRet w1 s1
         | Threw st w1 s1 \<Rightarrow> Threw st w1 s1
         | Fatal k w1 \<Rightarrow> Fatal k w1))"

subsection \<open>Commit and abort\<close>

text \<open>
  The loops over \<^verbatim>\<open>_changes\<close>, lines 123-125 and 150-156. A handler that throws ends the
  process (\<^verbatim>\<open>catch (...) { std::terminate(); }\<close>): \<open>Inl\<close> is the world at that moment.
\<close>

fun commitChanges :: "Env \<Rightarrow> Timestamp option \<Rightarrow> Change list \<Rightarrow> World \<Rightarrow> World + World" where
  "commitChanges env commitTime [] w = Inr w"
| "commitChanges env commitTime (c # cs) w =
     (let w' = emit (ChangeCommit c commitTime) w in
      if changeThrows env c then Inl w' else commitChanges env commitTime cs w')"

fun rollbackChanges :: "Env \<Rightarrow> Change list \<Rightarrow> World \<Rightarrow> World + World" where
  "rollbackChanges env [] w = Inr w"
| "rollbackChanges env (c # cs) w =
     (let w' = emit (ChangeRollback c) w in
      if changeThrows env c then Inl w' else rollbackChanges env cs w')"

text \<open>\<^verbatim>\<open>_commit\<close>, lines 102-132.\<close>

definition commit :: "Env \<Rightarrow> World \<Rightarrow> RecoveryUnit \<Rightarrow> unit Outcome" where
  "commit env w s =
     (let commitTime = (if isNull (commitTimestamp s) then lastTimestampSet s
                        else Some (commitTimestamp s));
          notifyDone = (\<not> isNull (prepareTimestamp s))
      in case (if session s \<and> isActive s then txnClose env True w s else Returned () w s) of
           Fatal k w1 \<Rightarrow> Fatal k w1
         | Threw st w1 s1 \<Rightarrow> Fatal Terminate w1
         | Returned u w1 s1 \<Rightarrow>
             (let s2 = setState kCommitting s1;
                  notifyDone' = (if alwaysNotifyPrepareConflictWaiters env then True
                                 else notifyDone);
                  w2 = (if notifyDone'
                        then emit NotifyPreparedUnitOfWorkHasCommittedOrAborted w1 else w1)
              in case commitChanges env commitTime (changes s2) w2 of
                   Inl w3 \<Rightarrow> Fatal Terminate w3
                 | Inr w3 \<Rightarrow> Returned () w3 (setState kInactive (s2\<lparr>changes := []\<rparr>))))"

text \<open>\<^verbatim>\<open>_abort\<close>, lines 134-163.\<close>

definition abort :: "Env \<Rightarrow> World \<Rightarrow> RecoveryUnit \<Rightarrow> unit Outcome" where
  "abort env w s =
     (let notifyDone = (\<not> isNull (prepareTimestamp s))
      in case (if session s \<and> isActive s then txnClose env False w s else Returned () w s) of
           Fatal k w1 \<Rightarrow> Fatal k w1
         | Threw st w1 s1 \<Rightarrow> Fatal Terminate w1
         | Returned u w1 s1 \<Rightarrow>
             (let s2 = setState kAborting s1;
                  notifyDone' = (if alwaysNotifyPrepareConflictWaiters env then True
                                 else notifyDone);
                  w2 = (if notifyDone'
                        then emit NotifyPreparedUnitOfWorkHasCommittedOrAborted w1 else w1)
              in case rollbackChanges env (rev (changes s2)) w2 of
                   Inl w3 \<Rightarrow> Fatal Terminate w3
                 | Inr w3 \<Rightarrow> Returned () w3 (setState kInactive (s2\<lparr>changes := []\<rparr>))))"

text \<open>The destructor, lines 97-100.\<close>

definition destructor :: "Env \<Rightarrow> World \<Rightarrow> RecoveryUnit \<Rightarrow> unit Outcome" where
  "destructor env w s = (if inUnitOfWork s then Fatal Invariant w else abort env w s)"

text \<open>Lines 188-196.\<close>

definition commitUnitOfWork :: "Env \<Rightarrow> World \<Rightarrow> RecoveryUnit \<Rightarrow> unit Outcome" where
  "commitUnitOfWork env w s = (if \<not> inUnitOfWork s then Fatal Invariant w else commit env w s)"

definition abortUnitOfWork :: "Env \<Rightarrow> World \<Rightarrow> RecoveryUnit \<Rightarrow> unit Outcome" where
  "abortUnitOfWork env w s = (if \<not> inUnitOfWork s then Fatal Invariant w else abort env w s)"

text \<open>\<^verbatim>\<open>beginUnitOfWork\<close>, lines 165-172.\<close>

definition beginUnitOfWork :: "World \<Rightarrow> RecoveryUnit \<Rightarrow> unit Outcome" where
  "beginUnitOfWork w s =
     (if inUnitOfWork s then Fatal Invariant w
      else if isCommittingOrAborting s then Fatal Invariant w
      else Returned () w (setState (if isActive s then kActive else kInactiveInUnitOfWork) s))"

text \<open>\<^verbatim>\<open>registerChange\<close>, lines 223-226.\<close>

definition registerChange :: "Change \<Rightarrow> World \<Rightarrow> RecoveryUnit \<Rightarrow> unit Outcome" where
  "registerChange change w s =
     (if \<not> inUnitOfWork s then Fatal Invariant w
      else Returned () w (s\<lparr>changes := changes s @ [change]\<rparr>))"

subsection \<open>Opening a transaction\<close>

text \<open>\<^verbatim>\<open>_ensureSession\<close>, lines 198-202.\<close>

definition ensureSession :: "World \<Rightarrow> RecoveryUnit \<Rightarrow> World \<times> RecoveryUnit" where
  "ensureSession w s =
     (if \<not> session s then (emit SessionCacheGetSession w, s\<lparr>session := True\<rparr>) else (w, s))"

text \<open>
  Modelled from the spec: \<^verbatim>\<open>WiredTigerBeginTxnBlock\<close> is not among the sources. Section 5:
  its destruction, on every exit path, rolls the attempt back if it was not explicitly
  finished; so a throw out of its scope is followed by \<^verbatim>\<open>TxnBlockRollback\<close>.

  The cases \<^verbatim>\<open>kUnset\<close> and \<^verbatim>\<open>kNoTimestamp\<close>, lines 376-388.
\<close>

definition txnOpenNoTimestamp :: "Env \<Rightarrow> World \<Rightarrow> RecoveryUnit \<Rightarrow> unit Outcome" where
  "txnOpenNoTimestamp env w s =
     (let w1 = emit (BeginTransaction (ignorePrepared s)) w in
      if isOplogReader s then
        (let w2 = emit (SetReadTimestamp (oplogReadTimestamp env) True) w1 in
         if \<not> isOK (readTimestampStatus env) then Fatal (Fassert 50771) w2
         else Returned () (emit TxnBlockDone w2) s)
      else Returned () (emit TxnBlockDone w1) s)"

text \<open>\<^verbatim>\<open>_beginTransactionAtAllCommittedTimestamp\<close>, lines 441-458.\<close>

definition beginTransactionAtAllCommittedTimestamp ::
  "Env \<Rightarrow> World \<Rightarrow> RecoveryUnit \<Rightarrow> Timestamp Outcome" where
  "beginTransactionAtAllCommittedTimestamp env w s =
     (let w1 = emit (BeginTransaction (ignorePrepared s)) w;
          txnTimestamp = allCommittedValue env;
          w2 = emit (SetReadTimestamp txnTimestamp True) w1
      in if \<not> isOK (readTimestampStatus env) then Fatal (Fassert 50948) w2
         else
           (let w3 = emit QueryReadTimestamp w2 in
            if query_rc env \<noteq> 0 then Fatal InvariantWTOK w3
            else if \<not> isOK (parseStatus env) then Fatal (Fassert 50949) w3
            else Returned (queriedReadTimestamp env) (emit TxnBlockDone w3) s))"

text \<open>
  The case \<^verbatim>\<open>kProvided\<close>, lines 423-435, which the two snapshot cases fall through to.
  \<^verbatim>\<open>uasserted\<close> and \<^verbatim>\<open>uassertStatusOK\<close> throw.
\<close>

definition txnOpenProvided :: "Env \<Rightarrow> World \<Rightarrow> RecoveryUnit \<Rightarrow> unit Outcome" where
  "txnOpenProvided env w s =
     (let w1 = emit (BeginTransaction (ignorePrepared s)) w;
          w2 = emit (SetReadTimestamp (readAtTimestamp s) False) w1;
          status = readTimestampStatus env
      in if \<not> isOK status \<and> code status = Some BadValue then
           Threw (StatusError SnapshotTooOld (ReadTimestampTooOld (readAtTimestamp s)))
             (emit TxnBlockRollback w2) s
         else if \<not> isOK status then Threw status (emit TxnBlockRollback w2) s
         else Returned () (emit TxnBlockDone w2) s)"

text \<open>The \<^verbatim>\<open>switch\<close> on the read source in \<^verbatim>\<open>_txnOpen\<close>, lines 375-436.\<close>

definition txnOpenSwitch :: "Env \<Rightarrow> World \<Rightarrow> RecoveryUnit \<Rightarrow> unit Outcome" where
  "txnOpenSwitch env w s =
     (case timestampReadSource s of
        kUnset \<Rightarrow> txnOpenNoTimestamp env w s
      | kNoTimestamp \<Rightarrow> txnOpenNoTimestamp env w s
      | kMajorityCommitted \<Rightarrow>
          Returned () (emit (BeginTransactionOnCommittedSnapshot (ignorePrepared s)) w)
            (s\<lparr>majorityCommittedSnapshot := committedSnapshot env\<rparr>)
      | kLastApplied \<Rightarrow>
          (if localSnapshot env \<noteq> None then
             Returned () (emit (BeginTransactionOnLocalSnapshot (ignorePrepared s)) w)
               (s\<lparr>readAtTimestamp := localSnapshotUsed env\<rparr>)
           else
             Returned () (emit TxnBlockDone (emit (BeginTransaction (ignorePrepared s)) w)) s)
      | kAllCommittedSnapshot \<Rightarrow>
          (if isNull (readAtTimestamp s) then
             (case beginTransactionAtAllCommittedTimestamp env w s of
                Returned t w1 s1 \<Rightarrow> Returned () w1 (s1\<lparr>readAtTimestamp := t\<rparr>)
              | Threw st w1 s1 \<Rightarrow> Threw st w1 s1
              | Fatal k w1 \<Rightarrow> Fatal k w1)
           else txnOpenProvided env w s)
      | kLastAppliedSnapshot \<Rightarrow>
          (if isNull (readAtTimestamp s) then
             Returned () (emit (BeginTransactionOnLocalSnapshot (ignorePrepared s)) w)
               (s\<lparr>readAtTimestamp := localSnapshotUsed env\<rparr>)
           else txnOpenProvided env w s)
      | kProvided \<Rightarrow> txnOpenProvided env w s)"

text \<open>\<^verbatim>\<open>_txnOpen\<close>, lines 362-439.\<close>

definition txnOpen :: "Env \<Rightarrow> World \<Rightarrow> RecoveryUnit \<Rightarrow> unit Outcome" where
  "txnOpen env w s =
     (if isActive s then Fatal Invariant w
      else if isCommittingOrAborting s then Fatal Invariant w
      else
        (let (w1, s1) = ensureSession w s;
             s2 = (if shouldLogSlow env then s1\<lparr>timer := True\<rparr> else s1)
         in txnOpenSwitch env w1 s2))"

text \<open>\<^verbatim>\<open>getSession\<close>, lines 236-242.\<close>

definition getSession :: "Env \<Rightarrow> World \<Rightarrow> RecoveryUnit \<Rightarrow> unit Outcome" where
  "getSession env w s =
     (if \<not> isActive s then
        (case txnOpen env w s of
           Returned u w1 s1 \<Rightarrow>
             Returned () w1
               (setState (if inUnitOfWork s1 then kActive else kActiveNotInUnitOfWork) s1)
         | Threw st w1 s1 \<Rightarrow> Threw st w1 s1
         | Fatal k w1 \<Rightarrow> Fatal k w1)
      else Returned () w s)"

text \<open>\<^verbatim>\<open>getSessionNoTxn\<close>, lines 244-252.\<close>

definition getSessionNoTxn :: "World \<Rightarrow> RecoveryUnit \<Rightarrow> unit Outcome" where
  "getSessionNoTxn w s =
     (let (w1, s1) = ensureSession w s in
      Returned () (emit (DropQueuedIdentsAtSessionEndAllowed False) w1) s1)"

text \<open>\<^verbatim>\<open>preallocateSnapshot\<close>, lines 263-266.\<close>

definition preallocateSnapshot :: "Env \<Rightarrow> World \<Rightarrow> RecoveryUnit \<Rightarrow> unit Outcome" where
  "preallocateSnapshot env w s = getSession env w s"

text \<open>\<^verbatim>\<open>abandonSnapshot\<close>, lines 254-261.\<close>

definition abandonSnapshot :: "Env \<Rightarrow> World \<Rightarrow> RecoveryUnit \<Rightarrow> unit Outcome" where
  "abandonSnapshot env w s =
     (if inUnitOfWork s then Fatal Invariant w
      else
        (case (if isActive s then txnClose env False w s else Returned () w s) of
           Returned u w1 s1 \<Rightarrow> Returned () w1 (setState kInactive s1)
         | Threw st w1 s1 \<Rightarrow> Threw st w1 s1
         | Fatal k w1 \<Rightarrow> Fatal k w1))"

text \<open>\<^verbatim>\<open>prepareUnitOfWork\<close>, lines 174-186.\<close>

definition prepareUnitOfWork :: "Env \<Rightarrow> World \<Rightarrow> RecoveryUnit \<Rightarrow> unit Outcome" where
  "prepareUnitOfWork env w s =
     (if \<not> inUnitOfWork s then Fatal Invariant w
      else if isNull (prepareTimestamp s) then Fatal Invariant w
      else
        (case getSession env w s of
           Returned u w1 s1 \<Rightarrow>
             (let w2 = emit (PrepareTransaction (prepareTimestamp s1)) w1 in
              if prepare_rc env \<noteq> 0 then Fatal InvariantWTOK w2 else Returned () w2 s1)
         | Threw st w1 s1 \<Rightarrow> Threw st w1 s1
         | Fatal k w1 \<Rightarrow> Fatal k w1))"

subsection \<open>Durability barriers\<close>

text \<open>Lines 204-221.\<close>

definition waitUntilDurable :: "World \<Rightarrow> RecoveryUnit \<Rightarrow> bool Outcome" where
  "waitUntilDurable w s =
     (if inUnitOfWork s then Fatal Invariant w
      else Returned True (emit (WaitUntilDurable False False) w) s)"

definition waitUntilUnjournaledWritesDurable :: "World \<Rightarrow> RecoveryUnit \<Rightarrow> bool Outcome" where
  "waitUntilUnjournaledWritesDurable w s =
     (if inUnitOfWork s then Fatal Invariant w
      else Returned True (emit (WaitUntilDurable True True) w) s)"

subsection \<open>Timestamps\<close>

text \<open>\<^verbatim>\<open>setTimestamp\<close>, lines 460-482.\<close>

definition setTimestamp :: "Env \<Rightarrow> Timestamp \<Rightarrow> World \<Rightarrow> RecoveryUnit \<Rightarrow> Status Outcome" where
  "setTimestamp env timestamp w s =
     (let (w1, s1) = ensureSession w s in
      if \<not> inUnitOfWork s1 then Fatal Invariant w1
      else if \<not> isNull (prepareTimestamp s1) then Fatal Invariant w1
      else if \<not> isNull (commitTimestamp s1) then Fatal Invariant w1
      else
        (case getSession env w1 (s1\<lparr>lastTimestampSet := Some timestamp\<rparr>) of
           Returned u w2 s2 \<Rightarrow>
             (let w3 = emit (TimestampTransaction timestamp) w2;
                  rc = timestamp_rc env;
                  s3 = (if rc = 0 then s2\<lparr>isTimestamped := True\<rparr> else s2)
              in Returned (wtRCToStatus env rc ''timestamp_transaction'') w3 s3)
         | Threw st w2 s2 \<Rightarrow> Threw st w2 s2
         | Fatal k w2 \<Rightarrow> Fatal k w2))"

text \<open>\<^verbatim>\<open>setCommitTimestamp\<close>, lines 484-501.\<close>

definition setCommitTimestamp :: "Timestamp \<Rightarrow> World \<Rightarrow> RecoveryUnit \<Rightarrow> unit Outcome" where
  "setCommitTimestamp timestamp w s =
     (if \<not> (\<not> inUnitOfWork s \<or> \<not> isNull (prepareTimestamp s)) then Fatal Invariant w
      else if \<not> isNull (commitTimestamp s) then Fatal Invariant w
      else if lastTimestampSet s \<noteq> None then Fatal Invariant w
      else if isTimestamped s then Fatal Invariant w
      else Returned () w (s\<lparr>commitTimestamp := timestamp\<rparr>))"

text \<open>\<^verbatim>\<open>clearCommitTimestamp\<close>, lines 507-516.\<close>

definition clearCommitTimestamp :: "World \<Rightarrow> RecoveryUnit \<Rightarrow> unit Outcome" where
  "clearCommitTimestamp w s =
     (if inUnitOfWork s then Fatal Invariant w
      else if isNull (commitTimestamp s) then Fatal Invariant w
      else if lastTimestampSet s \<noteq> None then Fatal Invariant w
      else if isTimestamped s then Fatal Invariant w
      else Returned () w (s\<lparr>commitTimestamp := 0\<rparr>))"

text \<open>\<^verbatim>\<open>setPrepareTimestamp\<close>, lines 518-534.\<close>

definition setPrepareTimestamp :: "Timestamp \<Rightarrow> World \<Rightarrow> RecoveryUnit \<Rightarrow> unit Outcome" where
  "setPrepareTimestamp timestamp w s =
     (if \<not> inUnitOfWork s then Fatal Invariant w
      else if \<not> isNull (prepareTimestamp s) then Fatal Invariant w
      else if \<not> isNull (commitTimestamp s) then Fatal Invariant w
      else if lastTimestampSet s \<noteq> None then Fatal Invariant w
      else Returned () w (s\<lparr>prepareTimestamp := timestamp\<rparr>))"

text \<open>\<^verbatim>\<open>setIgnorePrepared\<close>, lines 551-554.\<close>

definition setIgnorePrepared :: "bool \<Rightarrow> World \<Rightarrow> RecoveryUnit \<Rightarrow> unit Outcome" where
  "setIgnorePrepared v w s =
     Returned () w (s\<lparr>ignorePrepared := (if v then kIgnore else kNoIgnore)\<rparr>)"

text \<open>\<^verbatim>\<open>setTimestampReadSource\<close>, lines 556-572.\<close>

definition setTimestampReadSource ::
  "ReadSource \<Rightarrow> Timestamp option \<Rightarrow> World \<Rightarrow> RecoveryUnit \<Rightarrow> unit Outcome" where
  "setTimestampReadSource readSource provided w s =
     (if \<not> (\<not> isActive s \<or> timestampReadSource s = readSource) then Fatal Invariant w
      else if (provided = None) \<noteq> (readSource \<noteq> kProvided) then Fatal Invariant w
      else if (case provided of None \<Rightarrow> False | Some t \<Rightarrow> isNull t) then Fatal Invariant w
      else
        Returned () w
          (s\<lparr>timestampReadSource := readSource,
             readAtTimestamp := (case provided of Some t \<Rightarrow> t | None \<Rightarrow> 0)\<rparr>))"

text \<open>\<^verbatim>\<open>obtainMajorityCommittedSnapshot\<close>, lines 331-340.\<close>

definition obtainMajorityCommittedSnapshot ::
  "Env \<Rightarrow> World \<Rightarrow> RecoveryUnit \<Rightarrow> Status Outcome" where
  "obtainMajorityCommittedSnapshot env w s =
     (if timestampReadSource s \<noteq> kMajorityCommitted then Fatal Invariant w
      else
        (case minSnapshotForNextCommittedRead env of
           None \<Rightarrow>
             Returned
               (StatusError ReadConcernMajorityNotAvailableYet
                  (Message ''Read concern majority reads are currently not possible.''))
               w s
         | Some snapshotName \<Rightarrow>
             Returned StatusOK w (s\<lparr>majorityCommittedSnapshot := snapshotName\<rparr>)))"

text \<open>\<^verbatim>\<open>beginIdle\<close>, lines 578-583.\<close>

definition beginIdle :: "World \<Rightarrow> RecoveryUnit \<Rightarrow> unit Outcome" where
  "beginIdle w s = Returned () (if session s then emit CloseAllCursors w else w) s"

text \<open>
  Modelled from the spec: the setters of \<open>orderedCommit\<close> and \<open>isOplogReader\<close> are inline in
  the header, which is not among the sources. Section 3: \<open>orderedCommit\<close> is cleared by the
  caller to request the visibility hook, \<open>isOplogReader\<close> is set by the caller.
\<close>

definition setOrderedCommit :: "bool \<Rightarrow> World \<Rightarrow> RecoveryUnit \<Rightarrow> unit Outcome" where
  "setOrderedCommit v w s = Returned () w (s\<lparr>orderedCommit := v\<rparr>)"

definition setIsOplogReader :: "World \<Rightarrow> RecoveryUnit \<Rightarrow> unit Outcome" where
  "setIsOplogReader w s = Returned () w (s\<lparr>isOplogReader := True\<rparr>)"

subsection \<open>Sequences of operations\<close>

text \<open>
  The operations that change a recovery unit or call a collaborator. The getters
  (\<^verbatim>\<open>getSnapshotId\<close>, \<^verbatim>\<open>getCommitTimestamp\<close>, \<^verbatim>\<open>getPrepareTimestamp\<close>,
  \<^verbatim>\<open>getPointInTimeReadTimestamp\<close>, \<^verbatim>\<open>getTimestampReadSource\<close>, \<^verbatim>\<open>assertInActiveTxn\<close>,
  \<^verbatim>\<open>getOperationStatistics\<close>) are \<^verbatim>\<open>const\<close> and are left out.
\<close>

datatype Op =
    BeginUnitOfWork
  | PrepareUnitOfWork
  | CommitUnitOfWork
  | AbortUnitOfWork
  | RegisterChange Change
  | GetSession
  | GetSessionNoTxn
  | AbandonSnapshot
  | PreallocateSnapshot
  | WaitUntilDurableOp
  | WaitUntilUnjournaledWritesDurable
  | ObtainMajorityCommittedSnapshot
  | SetTimestamp Timestamp
  | SetCommitTimestamp Timestamp
  | ClearCommitTimestamp
  | SetPrepareTimestamp Timestamp
  | SetIgnorePrepared bool
  | SetTimestampReadSource ReadSource "Timestamp option"
  | BeginIdle
  | SetOrderedCommit bool
  | SetIsOplogReader

fun forget :: "'r Outcome \<Rightarrow> unit Outcome" where
  "forget (Returned r w s) = Returned () w s"
| "forget (Threw st w s) = Threw st w s"
| "forget (Fatal k w) = Fatal k w"

fun step :: "Env \<Rightarrow> Op \<Rightarrow> World \<Rightarrow> RecoveryUnit \<Rightarrow> unit Outcome" where
  "step env BeginUnitOfWork w s = beginUnitOfWork w s"
| "step env PrepareUnitOfWork w s = prepareUnitOfWork env w s"
| "step env CommitUnitOfWork w s = commitUnitOfWork env w s"
| "step env AbortUnitOfWork w s = abortUnitOfWork env w s"
| "step env (RegisterChange c) w s = registerChange c w s"
| "step env GetSession w s = getSession env w s"
| "step env GetSessionNoTxn w s = getSessionNoTxn w s"
| "step env AbandonSnapshot w s = abandonSnapshot env w s"
| "step env PreallocateSnapshot w s = preallocateSnapshot env w s"
| "step env WaitUntilDurableOp w s = forget (waitUntilDurable w s)"
| "step env WaitUntilUnjournaledWritesDurable w s = forget (waitUntilUnjournaledWritesDurable w s)"
| "step env ObtainMajorityCommittedSnapshot w s = forget (obtainMajorityCommittedSnapshot env w s)"
| "step env (SetTimestamp t) w s = forget (setTimestamp env t w s)"
| "step env (SetCommitTimestamp t) w s = setCommitTimestamp t w s"
| "step env ClearCommitTimestamp w s = clearCommitTimestamp w s"
| "step env (SetPrepareTimestamp t) w s = setPrepareTimestamp t w s"
| "step env (SetIgnorePrepared v) w s = setIgnorePrepared v w s"
| "step env (SetTimestampReadSource r p) w s = setTimestampReadSource r p w s"
| "step env BeginIdle w s = beginIdle w s"
| "step env (SetOrderedCommit v) w s = setOrderedCommit v w s"
| "step env SetIsOplogReader w s = setIsOplogReader w s"

text \<open>
  What is left after an operation: the world and the recovery unit when it returned or
  threw a status (the recovery unit stays in use), nothing after a fatal assertion.
\<close>

fun after :: "'r Outcome \<Rightarrow> (World \<times> RecoveryUnit) option" where
  "after (Returned r w s) = Some (w, s)"
| "after (Threw st w s) = Some (w, s)"
| "after (Fatal k w) = None"

text \<open>
  A sequence of operations on one recovery unit, each with the collaborators' answers
  during it. A fatal assertion ends the run with \<open>None\<close>.
\<close>

fun run :: "(Env \<times> Op) list \<Rightarrow> World \<Rightarrow> RecoveryUnit \<Rightarrow> (World \<times> RecoveryUnit) option" where
  "run [] w s = Some (w, s)"
| "run ((env, op) # rest) w s =
     (case after (step env op w s) of
        Some (w1, s1) \<Rightarrow> run rest w1 s1
      | None \<Rightarrow> None)"

text \<open>The handlers that a sequence of operations registers, in the order of the calls.\<close>

fun registered :: "(Env \<times> Op) list \<Rightarrow> Change list" where
  "registered [] = []"
| "registered ((env, RegisterChange c) # rest) = c # registered rest"
| "registered (x # rest) = registered rest"

text \<open>A sequence of operations that does not end a unit of work.\<close>

fun endsUnitOfWork :: "Op \<Rightarrow> bool" where
  "endsUnitOfWork CommitUnitOfWork = True"
| "endsUnitOfWork AbortUnitOfWork = True"
| "endsUnitOfWork op = False"

subsection \<open>A process with several recovery units\<close>

text \<open>
  The recovery units of one process share the world. An action constructs a recovery unit,
  runs an operation on the \<open>i\<close>-th one, or destroys it; an action on a recovery unit that
  does not exist (any more) is not a run of the program and gives \<open>None\<close>, as a fatal
  assertion does.
\<close>

datatype Action = Construct | Operate nat Env Op | Destroy nat Env

type_synonym Process = "World \<times> RecoveryUnit option list"

fun pstep :: "Action \<Rightarrow> Process \<Rightarrow> Process option" where
  "pstep Construct (w, rus) = (let (w', s) = constructor w in Some (w', rus @ [Some s]))"
| "pstep (Operate i env op) (w, rus) =
     (if i < length rus then
        (case rus ! i of
           None \<Rightarrow> None
         | Some s \<Rightarrow>
             (case after (step env op w s) of
                None \<Rightarrow> None
              | Some (w', s') \<Rightarrow> Some (w', rus[i := Some s'])))
      else None)"
| "pstep (Destroy i env) (w, rus) =
     (if i < length rus then
        (case rus ! i of
           None \<Rightarrow> None
         | Some s \<Rightarrow>
             (case after (destructor env w s) of
                None \<Rightarrow> None
              | Some (w', s') \<Rightarrow> Some (w', rus[i := None])))
      else None)"

fun prun :: "Action list \<Rightarrow> Process \<Rightarrow> Process option" where
  "prun [] p = Some p"
| "prun (a # rest) p = (case pstep a p of Some p' \<Rightarrow> prun rest p' | None \<Rightarrow> None)"

text \<open>The snapshot ids handed out, in order, as the trace records them.\<close>

fun assignedIds :: "Event list \<Rightarrow> 64 word list" where
  "assignedIds [] = []"
| "assignedIds (SnapshotIdAssigned i # es) = i # assignedIds es"
| "assignedIds (e # es) = assignedIds es"

subsection \<open>Predicates used in the statements\<close>

text \<open>An operation that hands out no snapshot id.\<close>

definition quiet :: "World \<Rightarrow> World \<Rightarrow> bool" where
  "quiet w w' =
     (nextSnapshotId w' = nextSnapshotId w \<and>
      assignedIds (events w') = assignedIds (events w))"

text \<open>An operation that hands out at most one snapshot id, the value of the counter.\<close>

definition idStep :: "World \<Rightarrow> World \<Rightarrow> bool" where
  "idStep w w' =
     (quiet w w' \<or>
      (nextSnapshotId w' = nextSnapshotId w + 1 \<and>
       assignedIds (events w') = assignedIds (events w) @ [nextSnapshotId w]))"

text \<open>The members that opening a transaction leaves alone.\<close>

definition sameCore :: "RecoveryUnit \<Rightarrow> RecoveryUnit \<Rightarrow> bool" where
  "sameCore s s' =
     (state s' = state s \<and> changes s' = changes s \<and>
      commitTimestamp s' = commitTimestamp s \<and> lastTimestampSet s' = lastTimestampSet s \<and>
      prepareTimestamp s' = prepareTimestamp s \<and> isTimestamped s' = isTimestamped s \<and>
      orderedCommit s' = orderedCommit s \<and> mySnapshotId s' = mySnapshotId s)"

text \<open>
  What holds of a recovery unit between two operations: the change list is empty outside
  a unit of work, an open transaction has a session, no commit or rollback handler is
  running, and the commit timestamp and the last timestamp set are not both there.
\<close>

definition ruInv :: "RecoveryUnit \<Rightarrow> bool" where
  "ruInv s =
     ((inUnitOfWork s \<or> changes s = []) \<and> (session s \<or> \<not> isActive s) \<and>
      \<not> isCommittingOrAborting s \<and>
      (isNull (commitTimestamp s) \<or> lastTimestampSet s = None))"

text \<open>Collaborators that accept every call: all return codes 0, no handler throws.\<close>

definition okEnv :: Env where
  "okEnv =
     \<lparr>commit_rc = 0, rollback_rc = 0, timestamp_rc = 0, prepare_rc = 0, query_rc = 0,
      parseStatus = StatusOK, queriedReadTimestamp = 0, readTimestampStatus = StatusOK,
      oplogReadTimestamp = 0, allCommittedValue = 0, committedSnapshot = 0,
      localSnapshot = None, localSnapshotUsed = 0, minSnapshotForNextCommittedRead = None,
      shouldLogSlow = False, alwaysNotifyPrepareConflictWaiters = False,
      changeThrows = (\<lambda>c. False), rcCode = (\<lambda>rc. UnknownError)\<rparr>"

subsection \<open>Concrete runs\<close>

text \<open>
  The first recovery unit of a process, and the same after \<^verbatim>\<open>beginUnitOfWork\<close>; the
  scenarios of the specification's section 8 start from them.
\<close>

definition freshWorld :: World where
  "freshWorld = fst (constructor initialWorld)"

definition freshUnit :: RecoveryUnit where
  "freshUnit = snd (constructor initialWorld)"

definition unitInWork :: RecoveryUnit where
  "unitInWork = setState kInactiveInUnitOfWork freshUnit"

text \<open>Scenario 2: two handlers and a timestamp.\<close>

definition twoHandlers :: "(Env \<times> Op) list" where
  "twoHandlers = [(okEnv, RegisterChange 1), (okEnv, RegisterChange 2), (okEnv, SetTimestamp 7)]"


text \<open>Scenario 7: a timestamped unit of work whose commit is declared unordered.\<close>

definition unorderedWork :: "(Env \<times> Op) list" where
  "unorderedWork = [(okEnv, SetTimestamp 42), (okEnv, SetOrderedCommit False)]"

text \<open>A commit timestamp set before the unit of work, and an unordered commit.\<close>

definition commitTimestampWork :: "(Env \<times> Op) list" where
  "commitTimestampWork =
     [(okEnv, SetCommitTimestamp 9), (okEnv, BeginUnitOfWork), (okEnv, GetSession),
      (okEnv, SetOrderedCommit False)]"

text \<open>An engine that rejects the read timestamp, with \<^verbatim>\<open>BadValue\<close> and with another code.\<close>

definition tooOldEnv :: Env where
  "tooOldEnv = okEnv\<lparr>readTimestampStatus := StatusError BadValue (Message ''too old'')\<rparr>"

definition brokenEnv :: Env where
  "brokenEnv = okEnv\<lparr>readTimestampStatus := StatusError UnknownError (Message ''broken'')\<rparr>"

text \<open>An engine whose \<^verbatim>\<open>commit_transaction\<close> fails.\<close>

definition failingCommitEnv :: Env where
  "failingCommitEnv = okEnv\<lparr>commit_rc := 1\<rparr>"


text \<open>
  The ids handed out since the start of the process are 1, 2, 3, ... as 64-bit values, and
  the counter holds the next one.
\<close>

definition idsInv :: "World \<Rightarrow> bool" where
  "idsInv w =
     (assignedIds (events w) = map of_nat [1..<Suc (length (assignedIds (events w)))] \<and>
      nextSnapshotId w = of_nat (Suc (length (assignedIds (events w)))))"

text \<open>Two recovery units; the first opens and abandons a snapshot.\<close>

definition twoUnits :: "Action list" where
  "twoUnits = [Construct, Operate 0 okEnv GetSession, Operate 0 okEnv AbandonSnapshot, Construct]"

section \<open>Proofs\<close>

subsection \<open>The trace\<close>

lemmas pred_defs = isActive_def inUnitOfWork_def isCommittingOrAborting_def isNull_def setState_def

lemma events_emit [simp]: "events (emit e w) = events w @ [e]"
  by (simp add: emit_def)

lemma nextSnapshotId_emit [simp]: "nextSnapshotId (emit e w) = nextSnapshotId w"
  by (simp add: emit_def)

lemma newEvents_append [simp]: "events w' = events w @ xs \<Longrightarrow> newEvents w w' = xs"
  by (simp add: newEvents_def)

lemma assignedIds_append [simp]: "assignedIds (xs @ ys) = assignedIds xs @ assignedIds ys"
  by (induction xs rule: assignedIds.induct) simp_all

lemma quiet_refl [simp]: "quiet w w"
  by (simp add: quiet_def)

lemma quiet_trans: "quiet a b \<Longrightarrow> quiet b c \<Longrightarrow> quiet a c"
  by (simp add: quiet_def)

lemma quiet_emit [simp]: "assignedIds [e] = [] \<Longrightarrow> quiet w (emit e w') = quiet w w'"
  by (simp add: quiet_def)

lemma sameCore_refl [simp]: "sameCore s s"
  by (simp add: sameCore_def)

lemma sameCore_trans: "sameCore a b \<Longrightarrow> sameCore b c \<Longrightarrow> sameCore a c"
  by (simp add: sameCore_def)

lemma sameCore_upd [simp]:
  "sameCore s (s'\<lparr>timer := x\<rparr>) = sameCore s s'"
  "sameCore s (s'\<lparr>readAtTimestamp := t\<rparr>) = sameCore s s'"
  "sameCore s (s'\<lparr>majorityCommittedSnapshot := t\<rparr>) = sameCore s s'"
  "sameCore s (s'\<lparr>session := b\<rparr>) = sameCore s s'"
  by (simp_all add: sameCore_def)

subsection \<open>Opening a transaction\<close>

lemma ensureSession_frame:
  "ensureSession w s = (w1, s1) \<Longrightarrow> sameCore s s1 \<and> session s1 \<and> quiet w w1"
  by (auto simp: ensureSession_def split: if_splits)

lemma txnOpenNoTimestamp_frame:
  "after (txnOpenNoTimestamp env w s) = Some (w', s') \<Longrightarrow> s' = s \<and> quiet w w'"
  by (auto simp: txnOpenNoTimestamp_def Let_def split: if_splits)

lemma txnOpenProvided_frame:
  "after (txnOpenProvided env w s) = Some (w', s') \<Longrightarrow> s' = s \<and> quiet w w'"
  by (auto simp: txnOpenProvided_def Let_def split: if_splits)

lemma beginTransactionAtAllCommittedTimestamp_frame:
  "beginTransactionAtAllCommittedTimestamp env w s = Returned t w' s' \<Longrightarrow> s' = s \<and> quiet w w'"
  by (auto simp: beginTransactionAtAllCommittedTimestamp_def Let_def split: if_splits)

lemma beginTransactionAtAllCommittedTimestamp_not_Threw:
  "beginTransactionAtAllCommittedTimestamp env w s \<noteq> Threw st w' s'"
  by (auto simp: beginTransactionAtAllCommittedTimestamp_def Let_def split: if_splits)

lemma txnOpenSwitch_frame:
  assumes "after (txnOpenSwitch env w s) = Some (w', s')"
  shows "sameCore s s' \<and> session s' = session s \<and> quiet w w'"
proof (cases "timestampReadSource s")
  case kUnset
  then show ?thesis using assms txnOpenNoTimestamp_frame[of env w s w' s']
    by (simp add: txnOpenSwitch_def)
next
  case kNoTimestamp
  then show ?thesis using assms txnOpenNoTimestamp_frame[of env w s w' s']
    by (simp add: txnOpenSwitch_def)
next
  case kMajorityCommitted
  then show ?thesis using assms
    by (auto simp: txnOpenSwitch_def)
next
  case kLastApplied
  then show ?thesis using assms
    by (auto simp: txnOpenSwitch_def split: if_splits)
next
  case kLastAppliedSnapshot
  then show ?thesis using assms txnOpenProvided_frame[of env w s w' s']
    by (auto simp: txnOpenSwitch_def split: if_splits)
next
  case kAllCommittedSnapshot
  then show ?thesis using assms txnOpenProvided_frame[of env w s w' s']
    by (auto simp: txnOpenSwitch_def beginTransactionAtAllCommittedTimestamp_not_Threw
        split: if_splits Outcome.splits
        dest!: beginTransactionAtAllCommittedTimestamp_frame)
next
  case kProvided
  then show ?thesis using assms txnOpenProvided_frame[of env w s w' s']
    by (simp add: txnOpenSwitch_def)
qed

lemma txnOpen_frame:
  assumes "after (txnOpen env w s) = Some (w', s')"
  shows "sameCore s s' \<and> session s' \<and> \<not> isActive s \<and> \<not> isCommittingOrAborting s \<and> quiet w w'"
proof -
  obtain w1 s1 where e: "ensureSession w s = (w1, s1)" by (cases "ensureSession w s")
  define s2 where "s2 = (if shouldLogSlow env then s1\<lparr>timer := True\<rparr> else s1)"
  from ensureSession_frame[OF e] have c2: "sameCore s s2" "session s2" and q1: "quiet w w1"
    by (auto simp: s2_def)
  have na: "\<not> isActive s" "\<not> isCommittingOrAborting s"
    using assms by (auto simp: txnOpen_def split: if_splits)
  have "after (txnOpenSwitch env w1 s2) = Some (w', s')"
    using assms e na by (simp add: txnOpen_def s2_def)
  from txnOpenSwitch_frame[OF this] c2 q1 na show ?thesis
    by (auto intro: sameCore_trans quiet_trans)
qed

text \<open>Opening a transaction calls the engine: the trace grows.\<close>

lemma txnOpenNoTimestamp_grows:
  "txnOpenNoTimestamp env w s = Returned u w' s' \<Longrightarrow> length (events w) < length (events w')"
  by (auto simp: txnOpenNoTimestamp_def Let_def split: if_splits)

lemma txnOpenProvided_grows:
  "txnOpenProvided env w s = Returned u w' s' \<Longrightarrow> length (events w) < length (events w')"
  by (auto simp: txnOpenProvided_def Let_def split: if_splits)

lemma beginTransactionAtAllCommittedTimestamp_grows:
  "beginTransactionAtAllCommittedTimestamp env w s = Returned t w' s' \<Longrightarrow>
     length (events w) < length (events w')"
  by (auto simp: beginTransactionAtAllCommittedTimestamp_def Let_def split: if_splits)

lemma txnOpenSwitch_grows:
  assumes "txnOpenSwitch env w s = Returned u w' s'"
  shows "length (events w) < length (events w')"
proof (cases "timestampReadSource s")
  case kUnset
  then show ?thesis using assms txnOpenNoTimestamp_grows[of env w s u w' s']
    by (simp add: txnOpenSwitch_def)
next
  case kNoTimestamp
  then show ?thesis using assms txnOpenNoTimestamp_grows[of env w s u w' s']
    by (simp add: txnOpenSwitch_def)
next
  case kMajorityCommitted
  then show ?thesis using assms by (auto simp: txnOpenSwitch_def)
next
  case kLastApplied
  then show ?thesis using assms by (auto simp: txnOpenSwitch_def split: if_splits)
next
  case kLastAppliedSnapshot
  then show ?thesis using assms txnOpenProvided_grows[of env w s u w' s']
    by (auto simp: txnOpenSwitch_def split: if_splits)
next
  case kAllCommittedSnapshot
  then show ?thesis using assms txnOpenProvided_grows[of env w s u w' s']
    by (auto simp: txnOpenSwitch_def split: if_splits Outcome.splits
        dest!: beginTransactionAtAllCommittedTimestamp_grows)
next
  case kProvided
  then show ?thesis using assms txnOpenProvided_grows[of env w s u w' s']
    by (simp add: txnOpenSwitch_def)
qed

lemma txnOpen_grows:
  assumes "txnOpen env w s = Returned u w' s'"
  shows "length (events w) < length (events w')"
proof -
  obtain w1 s1 where e: "ensureSession w s = (w1, s1)" by (cases "ensureSession w s")
  define s2 where "s2 = (if shouldLogSlow env then s1\<lparr>timer := True\<rparr> else s1)"
  from e have l: "length (events w) \<le> length (events w1)"
    by (auto simp: ensureSession_def split: if_splits)
  have "txnOpenSwitch env w1 s2 = Returned u w' s'"
    using assms e by (simp add: txnOpen_def s2_def split: if_splits)
  from txnOpenSwitch_grows[OF this] l show ?thesis by simp
qed

lemma getSession_active [simp]: "isActive s \<Longrightarrow> getSession env w s = Returned () w s"
  by (simp add: getSession_def)

lemma getSession_Returned:
  assumes "getSession env w s = Returned u w' s'"
  shows "isActive s' \<and> inUnitOfWork s' = inUnitOfWork s \<and> sameCore (s\<lparr>state := state s'\<rparr>) s' \<and>
         (session s' \<or> isActive s) \<and> quiet w w' \<and> (isActive s \<longrightarrow> s' = s \<and> w' = w) \<and>
         (isCommittingOrAborting s' = isCommittingOrAborting s)"
proof (cases "isActive s")
  case True
  with assms show ?thesis by (simp add: sameCore_def)
next
  case False
  then obtain s1 where o: "txnOpen env w s = Returned () w' s1"
    and s': "s' = setState (if inUnitOfWork s1 then kActive else kActiveNotInUnitOfWork) s1"
    using assms by (auto simp: getSession_def split: Outcome.splits)
  from o have "after (txnOpen env w s) = Some (w', s1)" by simp
  from txnOpen_frame[OF this] s' False show ?thesis
    by (auto simp: sameCore_def pred_defs)
qed

lemma getSession_Threw:
  assumes "getSession env w s = Threw st w' s'"
  shows "sameCore s s' \<and> session s' \<and> \<not> isActive s \<and> quiet w w'"
proof -
  have "txnOpen env w s = Threw st w' s'"
    using assms by (auto simp: getSession_def split: if_splits Outcome.splits)
  then have "after (txnOpen env w s) = Some (w', s')" by simp
  from txnOpen_frame[OF this] show ?thesis by simp
qed

subsection \<open>Closing a transaction\<close>

lemma txnCloseEngine_Returned:
  assumes "txnCloseEngine env c w s = Returned rc w1 s1"
  shows "rc = (if c then commit_rc env else 0)"
    and "s1 = (if c \<and> \<not> isNull (commitTimestamp s) then s\<lparr>isTimestamped := True\<rparr> else s)"
    and "events w1 = events w @
           (if c \<and> \<not> isNull (commitTimestamp s)
            then [TimestampTransaction (commitTimestamp s)] else []) @
           [if c then CommitTransaction else RollbackTransaction]"
    and "nextSnapshotId w1 = nextSnapshotId w"
  using assms by (auto simp: txnCloseEngine_def Let_def split: if_splits)

lemma txnCloseEngine_not_Threw: "txnCloseEngine env c w s \<noteq> Threw st w1 s1"
  by (auto simp: txnCloseEngine_def Let_def split: if_splits)

lemma txnCloseFinish_Returned:
  assumes "txnCloseFinish rc w s = Returned u w' s'"
  shows "rc = 0"
    and "events w' = events w @
           (if isTimestamped s \<and> \<not> orderedCommit s then [TriggerJournalFlush] else []) @
           [SnapshotIdAssigned (nextSnapshotId w)]"
    and "nextSnapshotId w' = nextSnapshotId w + 1"
    and "state s' = state s \<and> session s' = session s \<and> changes s' = changes s \<and>
         commitTimestamp s' = commitTimestamp s \<and> lastTimestampSet s' = None \<and>
         prepareTimestamp s' = 0 \<and> mySnapshotId s' = nextSnapshotId w \<and>
         \<not> isOplogReader s' \<and> orderedCommit s' \<and> \<not> isTimestamped s'"
    and "lastTimestampSet s = None \<or> isNull (commitTimestamp s)"
  using assms
  by (auto simp: txnCloseFinish_def fetchAndAdd_def Let_def split: if_splits)

lemma txnCloseFinish_not_Threw: "txnCloseFinish rc w s \<noteq> Threw st w1 s1"
  by (auto simp: txnCloseFinish_def fetchAndAdd_def Let_def split: if_splits)

lemma txnClose_not_Threw: "txnClose env c w s \<noteq> Threw st w1 s1"
  by (auto simp: txnClose_def txnCloseEngine_not_Threw txnCloseFinish_not_Threw
      split: Outcome.splits)

lemma txnClose_Returned:
  assumes "txnClose env c w s = Returned u w' s'"
  shows "isActive s \<and> session s"
    and "events w' = events w @
           (if c \<and> \<not> isNull (commitTimestamp s)
            then [TimestampTransaction (commitTimestamp s)] else []) @
           [if c then CommitTransaction else RollbackTransaction] @
           (if (isTimestamped s \<or> c \<and> \<not> isNull (commitTimestamp s)) \<and> \<not> orderedCommit s
            then [TriggerJournalFlush] else []) @
           [SnapshotIdAssigned (nextSnapshotId w)]"
    and "nextSnapshotId w' = nextSnapshotId w + 1"
    and "state s' = state s \<and> session s' = session s \<and> changes s' = changes s \<and>
         commitTimestamp s' = commitTimestamp s \<and> lastTimestampSet s' = None \<and>
         prepareTimestamp s' = 0 \<and> mySnapshotId s' = nextSnapshotId w \<and>
         \<not> isOplogReader s' \<and> orderedCommit s' \<and> \<not> isTimestamped s'"
    and "lastTimestampSet s = None \<or> isNull (commitTimestamp s)"
proof -
  show a: "isActive s \<and> session s"
    using assms by (auto simp: txnClose_def split: if_splits)
  then obtain rc w1 s1 where e: "txnCloseEngine env c w s = Returned rc w1 s1"
    and f: "txnCloseFinish rc w1 s1 = Returned u w' s'"
    using assms by (auto simp: txnClose_def split: Outcome.splits)
  note E = txnCloseEngine_Returned[OF e] and F = txnCloseFinish_Returned[OF f]
  show "events w' = events w @
           (if c \<and> \<not> isNull (commitTimestamp s)
            then [TimestampTransaction (commitTimestamp s)] else []) @
           [if c then CommitTransaction else RollbackTransaction] @
           (if (isTimestamped s \<or> c \<and> \<not> isNull (commitTimestamp s)) \<and> \<not> orderedCommit s
            then [TriggerJournalFlush] else []) @
           [SnapshotIdAssigned (nextSnapshotId w)]"
    using E(2,3,4) F(2) by (simp split: if_splits)
  show "nextSnapshotId w' = nextSnapshotId w + 1"
    using E(4) F(3) by simp
  show "state s' = state s \<and> session s' = session s \<and> changes s' = changes s \<and>
         commitTimestamp s' = commitTimestamp s \<and> lastTimestampSet s' = None \<and>
         prepareTimestamp s' = 0 \<and> mySnapshotId s' = nextSnapshotId w \<and>
         \<not> isOplogReader s' \<and> orderedCommit s' \<and> \<not> isTimestamped s'"
    using E(2,4) F(4) by (simp split: if_splits)
  show "lastTimestampSet s = None \<or> isNull (commitTimestamp s)"
    using E(2) F(5) by (simp split: if_splits)
qed

lemma txnClose_returns:
  assumes "isActive s" "session s" "lastTimestampSet s = None \<or> isNull (commitTimestamp s)"
    and "if c then commit_rc env = 0 \<and> (isNull (commitTimestamp s) \<or> timestamp_rc env = 0)
         else rollback_rc env = 0"
  shows "\<exists>w' s'. txnClose env c w s = Returned () w' s'"
  using assms
  by (auto simp: txnClose_def txnCloseEngine_def txnCloseFinish_def fetchAndAdd_def Let_def
      split: if_splits)

lemma txnClose_idStep:
  "txnClose env c w s = Returned u w' s' \<Longrightarrow>
     nextSnapshotId w' = nextSnapshotId w + 1 \<and>
     assignedIds (events w') = assignedIds (events w) @ [nextSnapshotId w]"
  by (frule txnClose_Returned(2), drule txnClose_Returned(3)) simp

subsection \<open>Commit and abort\<close>

lemma commitChanges_Inr:
  "commitChanges env t cs w = Inr w' \<Longrightarrow>
     events w' = events w @ map (\<lambda>c. ChangeCommit c t) cs \<and>
     nextSnapshotId w' = nextSnapshotId w"
  by (induction cs arbitrary: w) (auto simp: Let_def split: if_splits)

lemma rollbackChanges_Inr:
  "rollbackChanges env cs w = Inr w' \<Longrightarrow>
     events w' = events w @ map ChangeRollback cs \<and> nextSnapshotId w' = nextSnapshotId w"
  by (induction cs arbitrary: w) (auto simp: Let_def split: if_splits)

lemma commitChanges_returns:
  "\<forall>c \<in> set cs. \<not> changeThrows env c \<Longrightarrow> \<exists>w'. commitChanges env t cs w = Inr w'"
  by (induction cs arbitrary: w) (auto simp: Let_def)

lemma rollbackChanges_returns:
  "\<forall>c \<in> set cs. \<not> changeThrows env c \<Longrightarrow> \<exists>w'. rollbackChanges env cs w = Inr w'"
  by (induction cs arbitrary: w) (auto simp: Let_def)

lemma commit_not_Threw: "commit env w s \<noteq> Threw st w' s'"
  unfolding commit_def Let_def by (simp split: Outcome.split sum.split split del: if_split)

lemma abort_not_Threw: "abort env w s \<noteq> Threw st w' s'"
  unfolding abort_def Let_def by (simp split: Outcome.split sum.split)

text \<open>The world and the recovery unit that \<^verbatim>\<open>_commit\<close> and \<^verbatim>\<open>_abort\<close> reach after the close.\<close>

lemma commit_Returned:
  assumes "commit env w s = Returned u w' s'"
  obtains w1 s1 where
    "if session s \<and> isActive s then txnClose env True w s = Returned () w1 s1
     else w1 = w \<and> s1 = s"
    "events w' = events w1 @
       (if \<not> isNull (prepareTimestamp s) \<or> alwaysNotifyPrepareConflictWaiters env
        then [NotifyPreparedUnitOfWorkHasCommittedOrAborted] else []) @
       map (\<lambda>c. ChangeCommit c (if isNull (commitTimestamp s) then lastTimestampSet s
                                else Some (commitTimestamp s))) (changes s1)"
    "nextSnapshotId w' = nextSnapshotId w1"
    "s' = s1\<lparr>state := kInactive, changes := []\<rparr>"
proof -
  obtain w1 s1 where c: "(if session s \<and> isActive s then txnClose env True w s
        else Returned () w s) = Returned () w1 s1"
    using assms by (auto simp: commit_def Let_def split: Outcome.splits)
  then obtain w3 where cc: "commitChanges env
        (if isNull (commitTimestamp s) then lastTimestampSet s else Some (commitTimestamp s))
        (changes s1)
        (if \<not> isNull (prepareTimestamp s) \<or> alwaysNotifyPrepareConflictWaiters env
         then emit NotifyPreparedUnitOfWorkHasCommittedOrAborted w1 else w1) = Inr w3"
    and r: "w' = w3" "s' = s1\<lparr>state := kInactive, changes := []\<rparr>"
    using assms by (auto simp: commit_def Let_def setState_def split: sum.splits if_splits)
  from commitChanges_Inr[OF cc] r c show ?thesis
    by (intro that[of w1 s1]) (auto split: if_splits)
qed

lemma abort_Returned:
  assumes "abort env w s = Returned u w' s'"
  obtains w1 s1 where
    "if session s \<and> isActive s then txnClose env False w s = Returned () w1 s1
     else w1 = w \<and> s1 = s"
    "events w' = events w1 @
       (if \<not> isNull (prepareTimestamp s) \<or> alwaysNotifyPrepareConflictWaiters env
        then [NotifyPreparedUnitOfWorkHasCommittedOrAborted] else []) @
       map ChangeRollback (rev (changes s1))"
    "nextSnapshotId w' = nextSnapshotId w1"
    "s' = s1\<lparr>state := kInactive, changes := []\<rparr>"
proof -
  obtain w1 s1 where c: "(if session s \<and> isActive s then txnClose env False w s
        else Returned () w s) = Returned () w1 s1"
    using assms by (auto simp: abort_def Let_def split: Outcome.splits)
  then obtain w3 where cc: "rollbackChanges env (rev (changes s1))
        (if \<not> isNull (prepareTimestamp s) \<or> alwaysNotifyPrepareConflictWaiters env
         then emit NotifyPreparedUnitOfWorkHasCommittedOrAborted w1 else w1) = Inr w3"
    and r: "w' = w3" "s' = s1\<lparr>state := kInactive, changes := []\<rparr>"
    using assms by (auto simp: abort_def Let_def setState_def split: sum.splits if_splits)
  from rollbackChanges_Inr[OF cc] r c show ?thesis
    by (intro that[of w1 s1]) (auto split: if_splits)
qed

lemma commit_returns:
  assumes "session s \<or> \<not> isActive s" "lastTimestampSet s = None \<or> isNull (commitTimestamp s)"
    and "commit_rc env = 0" "isNull (commitTimestamp s) \<or> timestamp_rc env = 0"
    and "\<forall>c \<in> set (changes s). \<not> changeThrows env c"
  shows "\<exists>w' s'. commit env w s = Returned () w' s'"
proof -
  have "\<exists>w1 s1. (if session s \<and> isActive s then txnClose env True w s else Returned () w s)
           = Returned () w1 s1 \<and> changes s1 = changes s"
  proof (cases "session s \<and> isActive s")
    case True
    with assms txnClose_returns[of s True env w]
    obtain w1 s1 where "txnClose env True w s = Returned () w1 s1" by auto
    with True txnClose_Returned(4)[OF this] show ?thesis by simp
  next
    case False
    then show ?thesis by auto
  qed
  then obtain w1 s1 where c: "(if session s \<and> isActive s then txnClose env True w s
      else Returned () w s) = Returned () w1 s1" and ch: "changes s1 = changes s" by blast
  from assms(5) ch have "\<forall>c \<in> set (changes s1). \<not> changeThrows env c" by simp
  from commitChanges_returns[OF this] c show ?thesis
    unfolding commit_def Let_def setState_def
    by (simp split: sum.splits) (metis Inl_Inr_False)
qed

lemma abort_returns:
  assumes "session s \<or> \<not> isActive s" "lastTimestampSet s = None \<or> isNull (commitTimestamp s)"
    and "rollback_rc env = 0"
    and "\<forall>c \<in> set (changes s). \<not> changeThrows env c"
  shows "\<exists>w' s'. abort env w s = Returned () w' s'"
proof -
  have "\<exists>w1 s1. (if session s \<and> isActive s then txnClose env False w s else Returned () w s)
           = Returned () w1 s1 \<and> changes s1 = changes s"
  proof (cases "session s \<and> isActive s")
    case True
    with assms txnClose_returns[of s False env w]
    obtain w1 s1 where "txnClose env False w s = Returned () w1 s1" by auto
    with True txnClose_Returned(4)[OF this] show ?thesis by simp
  next
    case False
    then show ?thesis by auto
  qed
  then obtain w1 s1 where c: "(if session s \<and> isActive s then txnClose env False w s
      else Returned () w s) = Returned () w1 s1" and ch: "changes s1 = changes s" by blast
  from assms(4) ch have "\<forall>c \<in> set (rev (changes s1)). \<not> changeThrows env c" by simp
  from rollbackChanges_returns[OF this] c show ?thesis
    unfolding abort_def Let_def setState_def
    by (simp split: sum.splits) (metis Inl_Inr_False)
qed

subsection \<open>What one operation does to the invariant, the change list and the counter\<close>

lemma after_forget [simp]: "after (forget x) = after x"
  by (cases x) simp_all

lemma after_Some_cases:
  assumes "after x = Some (w', s')"
  obtains (Returned) r where "x = Returned r w' s'" | (Threw) st where "x = Threw st w' s'"
  using assms by (cases x) auto

lemma quiet_idStep: "quiet w w' \<Longrightarrow> idStep w w'"
  by (simp add: idStep_def)

lemma getSession_effects_conj:
  assumes "after (getSession env w s) = Some (w', s')"
  shows "quiet w w' \<and> (ruInv s \<longrightarrow> ruInv s') \<and>
    (inUnitOfWork s' = inUnitOfWork s \<and> changes s' = changes s) \<and>
    (commitTimestamp s' = commitTimestamp s \<and> lastTimestampSet s' = lastTimestampSet s \<and>
         prepareTimestamp s' = prepareTimestamp s \<and> isTimestamped s' = isTimestamped s \<and>
         mySnapshotId s' = mySnapshotId s)"
  using assms
proof (cases rule: after_Some_cases)
  case (Returned r)
  from getSession_Returned[OF this] show ?thesis
    by (auto simp: ruInv_def sameCore_def)
next
  case (Threw st)
  from getSession_Threw[OF this] show ?thesis
    by (auto simp: ruInv_def sameCore_def pred_defs)
qed

lemma getSession_effects:
  assumes "after (getSession env w s) = Some (w', s')"
  shows "quiet w w'"
    and "ruInv s \<longrightarrow> ruInv s'"
    and "inUnitOfWork s' = inUnitOfWork s \<and> changes s' = changes s"
    and "commitTimestamp s' = commitTimestamp s \<and> lastTimestampSet s' = lastTimestampSet s \<and>
         prepareTimestamp s' = prepareTimestamp s \<and> isTimestamped s' = isTimestamped s \<and>
         mySnapshotId s' = mySnapshotId s"
  using getSession_effects_conj[OF assms] by simp_all

lemma prepareUnitOfWork_effects:
  assumes "after (prepareUnitOfWork env w s) = Some (w', s')"
  shows "quiet w w'" and "ruInv s \<longrightarrow> ruInv s'"
    and "inUnitOfWork s' = inUnitOfWork s \<and> changes s' = changes s"
    and "mySnapshotId s' = mySnapshotId s"
proof -
  from assms obtain w1 where g: "after (getSession env w s) = Some (w1, s')"
    and w': "w' = w1 \<or> w' = emit (PrepareTransaction (prepareTimestamp s')) w1"
    by (auto simp: prepareUnitOfWork_def Let_def split: if_splits Outcome.splits)
  from getSession_effects[OF g] w' show "quiet w w'" and "ruInv s \<longrightarrow> ruInv s'"
    and "inUnitOfWork s' = inUnitOfWork s \<and> changes s' = changes s"
    and "mySnapshotId s' = mySnapshotId s"
    by auto
qed

lemma setTimestamp_pre:
  assumes "after (setTimestamp env ts w s) = Some (w', s')" "ensureSession w s = (w1, s1)"
  shows "inUnitOfWork s1 \<and> isNull (prepareTimestamp s1) \<and> isNull (commitTimestamp s1)"
proof (rule ccontr)
  assume "\<not> ?thesis"
  then have "setTimestamp env ts w s = Fatal Invariant w1"
    using assms(2) by (auto simp: setTimestamp_def)
  with assms(1) show False by simp
qed

lemma setTimestamp_unfold:
  assumes "ensureSession w s = (w1, s1)"
    and "inUnitOfWork s1 \<and> isNull (prepareTimestamp s1) \<and> isNull (commitTimestamp s1)"
  shows "setTimestamp env ts w s =
     (case getSession env w1 (s1\<lparr>lastTimestampSet := Some ts\<rparr>) of
        Returned u w2 s2 \<Rightarrow>
          Returned (wtRCToStatus env (timestamp_rc env) ''timestamp_transaction'')
            (emit (TimestampTransaction ts) w2)
            (if timestamp_rc env = 0 then s2\<lparr>isTimestamped := True\<rparr> else s2)
      | Threw st w2 s2 \<Rightarrow> Threw st w2 s2
      | Fatal k w2 \<Rightarrow> Fatal k w2)"
  using assms by (simp add: setTimestamp_def Let_def split: Outcome.split)

lemma ruInv_cong:
  "state s' = state s \<Longrightarrow> session s' = session s \<Longrightarrow> changes s' = changes s \<Longrightarrow>
   commitTimestamp s' = commitTimestamp s \<Longrightarrow> lastTimestampSet s' = lastTimestampSet s \<Longrightarrow>
   ruInv s' = ruInv s"
  by (simp add: ruInv_def pred_defs)

lemma inUnitOfWork_cong: "state s' = state s \<Longrightarrow> inUnitOfWork s' = inUnitOfWork s"
  by (simp add: inUnitOfWork_def)

lemma setTimestamp_effects:
  assumes "after (setTimestamp env ts w s) = Some (w', s')"
  shows "quiet w w'" and "ruInv s \<longrightarrow> ruInv s'"
    and "inUnitOfWork s' = inUnitOfWork s \<and> changes s' = changes s"
    and "mySnapshotId s' = mySnapshotId s"
proof -
  obtain w1 s1 where e: "ensureSession w s = (w1, s1)" by (cases "ensureSession w s")
  note E = ensureSession_frame[OF e]
  note pre = setTimestamp_pre[OF assms e]
  note eq = setTimestamp_unfold[OF e pre, of env ts]
  define sL where "sL = s1\<lparr>lastTimestampSet := Some ts\<rparr>"
  have "\<exists>w2 s2. after (getSession env w1 sL) = Some (w2, s2) \<and>
      (w' = w2 \<or> w' = emit (TimestampTransaction ts) w2) \<and>
      (s' = s2 \<or> s' = s2\<lparr>isTimestamped := True\<rparr>)"
  proof (cases "getSession env w1 sL")
    case (Returned u w2 s2)
    with assms eq show ?thesis by (auto simp: sL_def split: if_splits)
  next
    case (Threw st w2 s2)
    with assms eq show ?thesis by (auto simp: sL_def)
  next
    case (Fatal k w2)
    with assms eq show ?thesis by (auto simp: sL_def)
  qed
  then obtain w2 s2 where
    g: "after (getSession env w1 sL) = Some (w2, s2)"
    and w': "w' = w2 \<or> w' = emit (TimestampTransaction ts) w2"
    and s': "s' = s2 \<or> s' = s2\<lparr>isTimestamped := True\<rparr>"
    by blast
  note G = getSession_effects[OF g]
  from w' have "quiet w2 w'" by auto
  with G(1) E show "quiet w w'" by (blast intro: quiet_trans)
  from s' have f: "state s' = state s2" "session s' = session s2" "changes s' = changes s2"
    "commitTimestamp s' = commitTimestamp s2" "lastTimestampSet s' = lastTimestampSet s2"
    by auto
  have fL: "state sL = state s" "changes sL = changes s" "isNull (commitTimestamp sL)"
    "session sL"
    using E pre by (simp_all add: sL_def sameCore_def)
  have "ruInv sL" if "ruInv s"
    using that fL by (simp add: ruInv_def pred_defs)
  with G(2) ruInv_cong[OF f] show "ruInv s \<longrightarrow> ruInv s'"
    by simp
  from G(3) f(1,3) fL(1,2) show "inUnitOfWork s' = inUnitOfWork s \<and> changes s' = changes s"
    by (simp add: inUnitOfWork_def)
  from s' have "mySnapshotId s' = mySnapshotId s2" by auto
  with G(4) E show "mySnapshotId s' = mySnapshotId s"
    by (simp add: sL_def sameCore_def)
qed

lemma abandonSnapshot_effects:
  assumes "after (abandonSnapshot env w s) = Some (w', s')"
  shows "idStep w w'" and "ruInv s \<longrightarrow> ruInv s'" and "\<not> inUnitOfWork s"
    and "mySnapshotId s' = mySnapshotId s \<or>
         mySnapshotId s' = nextSnapshotId w \<and> nextSnapshotId w' = nextSnapshotId w + 1"
proof -
  show n: "\<not> inUnitOfWork s"
    using assms by (auto simp: abandonSnapshot_def split: if_splits)
  show "idStep w w'"
    using assms n
    by (auto simp: abandonSnapshot_def idStep_def txnClose_not_Threw
        split: if_splits Outcome.splits dest!: txnClose_idStep)
  show "ruInv s \<longrightarrow> ruInv s'"
  proof (cases "isActive s")
    case True
    with assms n obtain s1 where c: "txnClose env False w s = Returned () w' s1"
      and s': "s' = setState kInactive s1"
      by (auto simp: abandonSnapshot_def txnClose_not_Threw split: Outcome.splits)
    from txnClose_Returned(4)[OF c] s' n show ?thesis
      by (auto simp: ruInv_def pred_defs)
  next
    case False
    with assms n show ?thesis
      by (auto simp: abandonSnapshot_def ruInv_def pred_defs)
  qed
  show "mySnapshotId s' = mySnapshotId s \<or>
         mySnapshotId s' = nextSnapshotId w \<and> nextSnapshotId w' = nextSnapshotId w + 1"
  proof (cases "isActive s")
    case True
    with assms n obtain s1 where c: "txnClose env False w s = Returned () w' s1"
      and s': "s' = setState kInactive s1"
      by (auto simp: abandonSnapshot_def txnClose_not_Threw split: Outcome.splits)
    from txnClose_Returned(3,4)[OF c] s' show ?thesis
      by (simp add: setState_def)
  next
    case False
    with assms n show ?thesis
      by (auto simp: abandonSnapshot_def setState_def)
  qed
qed

lemma map_ChangeCommit_ids [simp]: "assignedIds (map (\<lambda>c. ChangeCommit c t) cs) = []"
  by (induction cs) simp_all

lemma map_ChangeRollback_ids [simp]: "assignedIds (map ChangeRollback cs) = []"
  by (induction cs) simp_all

lemma commit_effects:
  assumes "after (commit env w s) = Some (w', s')"
  shows "idStep w w'" and "ruInv s \<longrightarrow> ruInv s'" and "state s' = kInactive \<and> changes s' = []"
    and "mySnapshotId s' = mySnapshotId s \<or>
         mySnapshotId s' = nextSnapshotId w \<and> nextSnapshotId w' = nextSnapshotId w + 1"
proof -
  from assms obtain u where r: "commit env w s = Returned u w' s'"
    by (cases rule: after_Some_cases) (auto simp: commit_not_Threw)
  from r obtain w1 s1 where
    c: "if session s \<and> isActive s then txnClose env True w s = Returned () w1 s1
        else w1 = w \<and> s1 = s"
    and ev: "events w' = events w1 @
       (if \<not> isNull (prepareTimestamp s) \<or> alwaysNotifyPrepareConflictWaiters env
        then [NotifyPreparedUnitOfWorkHasCommittedOrAborted] else []) @
       map (\<lambda>c. ChangeCommit c (if isNull (commitTimestamp s) then lastTimestampSet s
                                else Some (commitTimestamp s))) (changes s1)"
    and n: "nextSnapshotId w' = nextSnapshotId w1"
    and s': "s' = s1\<lparr>state := kInactive, changes := []\<rparr>"
    by (rule commit_Returned)
  from ev n have q: "quiet w1 w'" by (simp add: quiet_def)
  have "idStep w w1"
    using c by (auto simp: idStep_def split: if_splits dest!: txnClose_idStep)
  with q show "idStep w w'" by (auto simp: idStep_def quiet_def)
  show "state s' = kInactive \<and> changes s' = []" using s' by simp
  have "lastTimestampSet s1 = None \<or> isNull (commitTimestamp s1)" if "ruInv s"
    using c that by (auto simp: ruInv_def split: if_splits dest!: txnClose_Returned(4))
  then show "ruInv s \<longrightarrow> ruInv s'" using s' by (auto simp: ruInv_def pred_defs)
  have "mySnapshotId s1 = mySnapshotId s \<or>
        mySnapshotId s1 = nextSnapshotId w \<and> nextSnapshotId w1 = nextSnapshotId w + 1"
    using c by (auto split: if_splits dest: txnClose_Returned(3,4))
  with n s' show "mySnapshotId s' = mySnapshotId s \<or>
         mySnapshotId s' = nextSnapshotId w \<and> nextSnapshotId w' = nextSnapshotId w + 1"
    by simp
qed

lemma abort_effects:
  assumes "after (abort env w s) = Some (w', s')"
  shows "idStep w w'" and "ruInv s \<longrightarrow> ruInv s'" and "state s' = kInactive \<and> changes s' = []"
    and "mySnapshotId s' = mySnapshotId s \<or>
         mySnapshotId s' = nextSnapshotId w \<and> nextSnapshotId w' = nextSnapshotId w + 1"
proof -
  from assms obtain u where r: "abort env w s = Returned u w' s'"
    by (cases rule: after_Some_cases) (auto simp: abort_not_Threw)
  from r obtain w1 s1 where
    c: "if session s \<and> isActive s then txnClose env False w s = Returned () w1 s1
        else w1 = w \<and> s1 = s"
    and ev: "events w' = events w1 @
       (if \<not> isNull (prepareTimestamp s) \<or> alwaysNotifyPrepareConflictWaiters env
        then [NotifyPreparedUnitOfWorkHasCommittedOrAborted] else []) @
       map ChangeRollback (rev (changes s1))"
    and n: "nextSnapshotId w' = nextSnapshotId w1"
    and s': "s' = s1\<lparr>state := kInactive, changes := []\<rparr>"
    by (rule abort_Returned)
  from ev n have q: "quiet w1 w'" by (simp add: quiet_def)
  have "idStep w w1"
    using c by (auto simp: idStep_def split: if_splits dest!: txnClose_idStep)
  with q show "idStep w w'" by (auto simp: idStep_def quiet_def)
  show "state s' = kInactive \<and> changes s' = []" using s' by simp
  have "lastTimestampSet s1 = None \<or> isNull (commitTimestamp s1)" if "ruInv s"
    using c that by (auto simp: ruInv_def split: if_splits dest!: txnClose_Returned(4))
  then show "ruInv s \<longrightarrow> ruInv s'" using s' by (auto simp: ruInv_def pred_defs)
  have "mySnapshotId s1 = mySnapshotId s \<or>
        mySnapshotId s1 = nextSnapshotId w \<and> nextSnapshotId w1 = nextSnapshotId w + 1"
    using c by (auto split: if_splits dest: txnClose_Returned(3,4))
  with n s' show "mySnapshotId s' = mySnapshotId s \<or>
         mySnapshotId s' = nextSnapshotId w \<and> nextSnapshotId w' = nextSnapshotId w + 1"
    by simp
qed

text \<open>The operations that neither open nor close a transaction.\<close>

lemma beginUnitOfWork_effects:
  assumes "after (beginUnitOfWork w s) = Some (w', s')"
  shows "quiet w w'" and "ruInv s \<longrightarrow> ruInv s'"
proof -
  from assms show "quiet w w'"
    by (auto simp: beginUnitOfWork_def quiet_def split: if_splits)
  from assms show "ruInv s \<longrightarrow> ruInv s'"
    by (auto simp: beginUnitOfWork_def ruInv_def pred_defs split: if_splits)
qed

lemma registerChange_effects:
  assumes "after (registerChange c w s) = Some (w', s')"
  shows "quiet w w'" and "ruInv s \<longrightarrow> ruInv s'"
proof -
  from assms show "quiet w w'"
    by (auto simp: registerChange_def quiet_def split: if_splits)
  from assms show "ruInv s \<longrightarrow> ruInv s'"
    by (auto simp: registerChange_def ruInv_def pred_defs split: if_splits)
qed

lemma getSessionNoTxn_effects:
  assumes "after (getSessionNoTxn w s) = Some (w', s')"
  shows "quiet w w'" and "ruInv s \<longrightarrow> ruInv s'"
proof -
  from assms show "quiet w w'"
    by (auto simp: getSessionNoTxn_def ensureSession_def quiet_def split: if_splits)
  from assms show "ruInv s \<longrightarrow> ruInv s'"
    by (auto simp: getSessionNoTxn_def ensureSession_def ruInv_def pred_defs split: if_splits)
qed

lemma waitUntilDurable_effects:
  assumes "after (waitUntilDurable w s) = Some (w', s')"
  shows "quiet w w'" and "ruInv s \<longrightarrow> ruInv s'"
proof -
  from assms show "quiet w w'"
    by (auto simp: waitUntilDurable_def quiet_def split: if_splits)
  from assms show "ruInv s \<longrightarrow> ruInv s'"
    by (auto simp: waitUntilDurable_def ruInv_def pred_defs split: if_splits)
qed

lemma waitUntilUnjournaledWritesDurable_effects:
  assumes "after (waitUntilUnjournaledWritesDurable w s) = Some (w', s')"
  shows "quiet w w'" and "ruInv s \<longrightarrow> ruInv s'"
proof -
  from assms show "quiet w w'"
    by (auto simp: waitUntilUnjournaledWritesDurable_def quiet_def split: if_splits)
  from assms show "ruInv s \<longrightarrow> ruInv s'"
    by (auto simp: waitUntilUnjournaledWritesDurable_def ruInv_def pred_defs split: if_splits)
qed

lemma obtainMajorityCommittedSnapshot_effects:
  assumes "after (obtainMajorityCommittedSnapshot env w s) = Some (w', s')"
  shows "quiet w w'" and "ruInv s \<longrightarrow> ruInv s'"
proof -
  from assms show "quiet w w'"
    by (auto simp: obtainMajorityCommittedSnapshot_def quiet_def split: if_splits option.splits)
  from assms show "ruInv s \<longrightarrow> ruInv s'"
    by (auto simp: obtainMajorityCommittedSnapshot_def ruInv_def pred_defs split: if_splits option.splits)
qed

lemma setCommitTimestamp_effects:
  assumes "after (setCommitTimestamp t w s) = Some (w', s')"
  shows "quiet w w'" and "ruInv s \<longrightarrow> ruInv s'"
proof -
  from assms show "quiet w w'"
    by (auto simp: setCommitTimestamp_def quiet_def split: if_splits)
  from assms show "ruInv s \<longrightarrow> ruInv s'"
    by (auto simp: setCommitTimestamp_def ruInv_def pred_defs split: if_splits)
qed

lemma clearCommitTimestamp_effects:
  assumes "after (clearCommitTimestamp w s) = Some (w', s')"
  shows "quiet w w'" and "ruInv s \<longrightarrow> ruInv s'"
proof -
  from assms show "quiet w w'"
    by (auto simp: clearCommitTimestamp_def quiet_def split: if_splits)
  from assms show "ruInv s \<longrightarrow> ruInv s'"
    by (auto simp: clearCommitTimestamp_def ruInv_def pred_defs split: if_splits)
qed

lemma setPrepareTimestamp_effects:
  assumes "after (setPrepareTimestamp t w s) = Some (w', s')"
  shows "quiet w w'" and "ruInv s \<longrightarrow> ruInv s'"
proof -
  from assms show "quiet w w'"
    by (auto simp: setPrepareTimestamp_def quiet_def split: if_splits)
  from assms show "ruInv s \<longrightarrow> ruInv s'"
    by (auto simp: setPrepareTimestamp_def ruInv_def pred_defs split: if_splits)
qed

lemma setIgnorePrepared_effects:
  assumes "after (setIgnorePrepared v w s) = Some (w', s')"
  shows "quiet w w'" and "ruInv s \<longrightarrow> ruInv s'"
proof -
  from assms show "quiet w w'"
    by (auto simp: setIgnorePrepared_def quiet_def split: if_splits)
  from assms show "ruInv s \<longrightarrow> ruInv s'"
    by (auto simp: setIgnorePrepared_def ruInv_def pred_defs split: if_splits)
qed

lemma setTimestampReadSource_effects:
  assumes "after (setTimestampReadSource r p w s) = Some (w', s')"
  shows "quiet w w'" and "ruInv s \<longrightarrow> ruInv s'"
proof -
  from assms have e: "w' = w \<and>
      s' = s\<lparr>timestampReadSource := r,
             readAtTimestamp := (case p of Some t \<Rightarrow> t | None \<Rightarrow> 0)\<rparr>"
    by (simp add: setTimestampReadSource_def split: if_splits)
  then show "quiet w w'" by simp
  from e have "ruInv s' = ruInv s" by (intro ruInv_cong) simp_all
  then show "ruInv s \<longrightarrow> ruInv s'" by simp
qed

lemma beginIdle_effects:
  assumes "after (beginIdle w s) = Some (w', s')"
  shows "quiet w w'" and "ruInv s \<longrightarrow> ruInv s'"
proof -
  from assms show "quiet w w'"
    by (auto simp: beginIdle_def quiet_def split: if_splits)
  from assms show "ruInv s \<longrightarrow> ruInv s'"
    by (auto simp: beginIdle_def ruInv_def pred_defs split: if_splits)
qed

lemma setOrderedCommit_effects:
  assumes "after (setOrderedCommit v w s) = Some (w', s')"
  shows "quiet w w'" and "ruInv s \<longrightarrow> ruInv s'"
proof -
  from assms show "quiet w w'"
    by (auto simp: setOrderedCommit_def quiet_def split: if_splits)
  from assms show "ruInv s \<longrightarrow> ruInv s'"
    by (auto simp: setOrderedCommit_def ruInv_def pred_defs split: if_splits)
qed

lemma setIsOplogReader_effects:
  assumes "after (setIsOplogReader w s) = Some (w', s')"
  shows "quiet w w'" and "ruInv s \<longrightarrow> ruInv s'"
proof -
  from assms show "quiet w w'"
    by (auto simp: setIsOplogReader_def quiet_def split: if_splits)
  from assms show "ruInv s \<longrightarrow> ruInv s'"
    by (auto simp: setIsOplogReader_def ruInv_def pred_defs split: if_splits)
qed

text \<open>Every operation keeps the invariant and hands out at most one snapshot id.\<close>

lemma step_effects:
  assumes "after (step env op w s) = Some (w', s')"
  shows "idStep w w'" and "ruInv s \<longrightarrow> ruInv s'"
proof -
  have "idStep w w' \<and> (ruInv s \<longrightarrow> ruInv s')"
  proof (cases op)
    case BeginUnitOfWork
    with assms beginUnitOfWork_effects[of w s w' s'] show ?thesis
      by (simp add: quiet_idStep)
  next
    case PrepareUnitOfWork
    with assms prepareUnitOfWork_effects[of env w s w' s'] show ?thesis
      by (simp add: quiet_idStep)
  next
    case CommitUnitOfWork
    with assms commit_effects[of env w s w' s'] show ?thesis
      by (simp add: commitUnitOfWork_def split: if_splits)
  next
    case AbortUnitOfWork
    with assms abort_effects[of env w s w' s'] show ?thesis
      by (simp add: abortUnitOfWork_def split: if_splits)
  next
    case (RegisterChange c)
    with assms registerChange_effects[of c w s w' s'] show ?thesis
      by (simp add: quiet_idStep)
  next
    case GetSession
    with assms getSession_effects[of env w s w' s'] show ?thesis
      by (simp add: quiet_idStep)
  next
    case GetSessionNoTxn
    with assms getSessionNoTxn_effects[of w s w' s'] show ?thesis
      by (simp add: quiet_idStep)
  next
    case AbandonSnapshot
    with assms abandonSnapshot_effects[of env w s w' s'] show ?thesis
      by (simp)
  next
    case PreallocateSnapshot
    with assms getSession_effects[of env w s w' s'] show ?thesis
      by (simp add: quiet_idStep preallocateSnapshot_def)
  next
    case WaitUntilDurableOp
    with assms waitUntilDurable_effects[of w s w' s'] show ?thesis
      by (simp add: quiet_idStep)
  next
    case WaitUntilUnjournaledWritesDurable
    with assms waitUntilUnjournaledWritesDurable_effects[of w s w' s'] show ?thesis
      by (simp add: quiet_idStep)
  next
    case ObtainMajorityCommittedSnapshot
    with assms obtainMajorityCommittedSnapshot_effects[of env w s w' s'] show ?thesis
      by (simp add: quiet_idStep)
  next
    case (SetTimestamp t)
    with assms setTimestamp_effects[of env t w s w' s'] show ?thesis
      by (simp add: quiet_idStep)
  next
    case (SetCommitTimestamp t)
    with assms setCommitTimestamp_effects[of t w s w' s'] show ?thesis
      by (simp add: quiet_idStep)
  next
    case ClearCommitTimestamp
    with assms clearCommitTimestamp_effects[of w s w' s'] show ?thesis
      by (simp add: quiet_idStep)
  next
    case (SetPrepareTimestamp t)
    with assms setPrepareTimestamp_effects[of t w s w' s'] show ?thesis
      by (simp add: quiet_idStep)
  next
    case (SetIgnorePrepared v)
    with assms setIgnorePrepared_effects[of v w s w' s'] show ?thesis
      by (simp add: quiet_idStep)
  next
    case (SetTimestampReadSource r p)
    with assms setTimestampReadSource_effects[of r p w s w' s'] show ?thesis
      by (simp add: quiet_idStep)
  next
    case BeginIdle
    with assms beginIdle_effects[of w s w' s'] show ?thesis
      by (simp add: quiet_idStep)
  next
    case (SetOrderedCommit v)
    with assms setOrderedCommit_effects[of v w s w' s'] show ?thesis
      by (simp add: quiet_idStep)
  next
    case SetIsOplogReader
    with assms setIsOplogReader_effects[of w s w' s'] show ?thesis
      by (simp add: quiet_idStep)
  qed
  then show "idStep w w'" and "ruInv s \<longrightarrow> ruInv s'" by simp_all
qed

text \<open>An operation keeps the snapshot id, or takes the value of the counter and bumps it.\<close>

lemma step_snapshotId:
  assumes "after (step env op w s) = Some (w', s')"
  shows "mySnapshotId s' = mySnapshotId s \<or>
         mySnapshotId s' = nextSnapshotId w \<and> nextSnapshotId w' = nextSnapshotId w + 1"
proof (cases op)
  case BeginUnitOfWork
  with assms show ?thesis by (auto simp: beginUnitOfWork_def setState_def split: if_splits)
next
  case PrepareUnitOfWork
  with assms prepareUnitOfWork_effects(4)[of env w s w' s'] show ?thesis by simp
next
  case CommitUnitOfWork
  with assms commit_effects(4)[of env w s w' s'] show ?thesis
    by (simp add: commitUnitOfWork_def split: if_splits)
next
  case AbortUnitOfWork
  with assms abort_effects(4)[of env w s w' s'] show ?thesis
    by (simp add: abortUnitOfWork_def split: if_splits)
next
  case (RegisterChange c)
  with assms show ?thesis by (auto simp: registerChange_def split: if_splits)
next
  case GetSession
  with assms getSession_effects(4)[of env w s w' s'] show ?thesis by simp
next
  case GetSessionNoTxn
  with assms show ?thesis
    by (auto simp: getSessionNoTxn_def ensureSession_def split: if_splits)
next
  case AbandonSnapshot
  with assms abandonSnapshot_effects(4)[of env w s w' s'] show ?thesis by simp
next
  case PreallocateSnapshot
  with assms getSession_effects(4)[of env w s w' s'] show ?thesis
    by (simp add: preallocateSnapshot_def)
next
  case WaitUntilDurableOp
  with assms show ?thesis by (auto simp: waitUntilDurable_def split: if_splits)
next
  case WaitUntilUnjournaledWritesDurable
  with assms show ?thesis
    by (auto simp: waitUntilUnjournaledWritesDurable_def split: if_splits)
next
  case ObtainMajorityCommittedSnapshot
  with assms show ?thesis
    by (auto simp: obtainMajorityCommittedSnapshot_def split: if_splits option.splits)
next
  case (SetTimestamp t)
  with assms setTimestamp_effects(4)[of env t w s w' s'] show ?thesis by simp
next
  case (SetCommitTimestamp t)
  with assms show ?thesis by (auto simp: setCommitTimestamp_def split: if_splits)
next
  case ClearCommitTimestamp
  with assms show ?thesis by (auto simp: clearCommitTimestamp_def split: if_splits)
next
  case (SetPrepareTimestamp t)
  with assms show ?thesis by (auto simp: setPrepareTimestamp_def split: if_splits)
next
  case (SetIgnorePrepared v)
  with assms show ?thesis by (auto simp: setIgnorePrepared_def)
next
  case (SetTimestampReadSource r p)
  with assms show ?thesis by (auto simp: setTimestampReadSource_def split: if_splits)
next
  case BeginIdle
  with assms show ?thesis by (auto simp: beginIdle_def)
next
  case (SetOrderedCommit v)
  with assms show ?thesis by (auto simp: setOrderedCommit_def)
next
  case SetIsOplogReader
  with assms show ?thesis by (auto simp: setIsOplogReader_def)
qed

text \<open>Inside a unit of work, only \<^verbatim>\<open>registerChange\<close> touches the change list.\<close>

lemma step_in_unit_of_work:
  assumes "after (step env op w s) = Some (w', s')" "inUnitOfWork s" "\<not> endsUnitOfWork op"
  shows "inUnitOfWork s' \<and> changes s' = changes s @ registered [(env, op)]"
proof (cases op)
  case BeginUnitOfWork
  with assms show ?thesis by (simp add: beginUnitOfWork_def)
next
  case PrepareUnitOfWork
  with assms prepareUnitOfWork_effects[of env w s w' s'] show ?thesis by simp
next
  case CommitUnitOfWork
  with assms show ?thesis by simp
next
  case AbortUnitOfWork
  with assms show ?thesis by simp
next
  case (RegisterChange c)
  with assms show ?thesis by (auto simp: registerChange_def pred_defs)
next
  case GetSession
  with assms getSession_effects[of env w s w' s'] show ?thesis by simp
next
  case GetSessionNoTxn
  with assms show ?thesis
    by (auto simp: getSessionNoTxn_def ensureSession_def pred_defs split: if_splits)
next
  case AbandonSnapshot
  with assms abandonSnapshot_effects[of env w s w' s'] show ?thesis by simp
next
  case PreallocateSnapshot
  with assms getSession_effects[of env w s w' s'] show ?thesis
    by (simp add: preallocateSnapshot_def)
next
  case WaitUntilDurableOp
  with assms show ?thesis by (simp add: waitUntilDurable_def)
next
  case WaitUntilUnjournaledWritesDurable
  with assms show ?thesis by (simp add: waitUntilUnjournaledWritesDurable_def)
next
  case ObtainMajorityCommittedSnapshot
  with assms show ?thesis
    by (auto simp: obtainMajorityCommittedSnapshot_def pred_defs split: if_splits option.splits)
next
  case (SetTimestamp t)
  with assms setTimestamp_effects[of env t w s w' s'] show ?thesis by simp
next
  case (SetCommitTimestamp t)
  with assms show ?thesis
    by (auto simp: setCommitTimestamp_def pred_defs split: if_splits)
next
  case ClearCommitTimestamp
  with assms show ?thesis by (simp add: clearCommitTimestamp_def)
next
  case (SetPrepareTimestamp t)
  with assms show ?thesis
    by (auto simp: setPrepareTimestamp_def pred_defs split: if_splits)
next
  case (SetIgnorePrepared v)
  with assms show ?thesis by (auto simp: setIgnorePrepared_def pred_defs)
next
  case (SetTimestampReadSource r p)
  with assms show ?thesis
    by (auto simp: setTimestampReadSource_def pred_defs split: if_splits)
next
  case BeginIdle
  with assms show ?thesis by (auto simp: beginIdle_def)
next
  case (SetOrderedCommit v)
  with assms show ?thesis by (auto simp: setOrderedCommit_def pred_defs)
next
  case SetIsOplogReader
  with assms show ?thesis by (auto simp: setIsOplogReader_def pred_defs)
qed

lemma run_ruInv:
  "run ops w s = Some (w', s') \<Longrightarrow> ruInv s \<Longrightarrow> ruInv s'"
proof (induction ops arbitrary: w s)
  case Nil
  then show ?case by simp
next
  case (Cons a ops)
  obtain env op where a: "a = (env, op)" by (cases a)
  with Cons.prems(1) obtain w1 s1 where st: "after (step env op w s) = Some (w1, s1)"
    and r: "run ops w1 s1 = Some (w', s')"
    by (auto split: option.splits)
  from step_effects(2)[OF st] Cons.prems(2) have "ruInv s1" by simp
  from Cons.IH[OF r this] show ?case .
qed

lemma run_in_unit_of_work:
  "run ops w s = Some (w', s') \<Longrightarrow> inUnitOfWork s \<Longrightarrow>
   \<forall>x \<in> set ops. \<not> endsUnitOfWork (snd x) \<Longrightarrow>
   inUnitOfWork s' \<and> changes s' = changes s @ registered ops"
proof (induction ops arbitrary: w s)
  case Nil
  then show ?case by simp
next
  case (Cons a ops)
  obtain env op where a: "a = (env, op)" by (cases a)
  with Cons.prems(1) obtain w1 s1 where st: "after (step env op w s) = Some (w1, s1)"
    and r: "run ops w1 s1 = Some (w', s')"
    by (auto split: option.splits)
  from Cons.prems(3) a have ne: "\<not> endsUnitOfWork op"
    and rest: "\<forall>x \<in> set ops. \<not> endsUnitOfWork (snd x)"
    by simp_all
  from step_in_unit_of_work[OF st Cons.prems(2) ne]
  have s1: "inUnitOfWork s1" "changes s1 = changes s @ registered [(env, op)]" by simp_all
  have reg: "registered ((env, op) # ops) = registered [(env, op)] @ registered ops"
    by (cases op) simp_all
  from Cons.IH[OF r s1(1) rest] s1(2) a reg show ?case by simp
qed

lemma constructor_ruInv: "constructor w = (w', s) \<Longrightarrow> ruInv s \<and> state s = kInactive"
  by (auto simp: constructor_def fetchAndAdd_def ruInv_def pred_defs)

subsection \<open>Which operations write the commit timestamp\<close>

lemma prepareUnitOfWork_commitTimestamp:
  assumes "after (prepareUnitOfWork env w s) = Some (w', s')"
  shows "commitTimestamp s' = commitTimestamp s"
proof -
  from assms obtain w1 where g: "after (getSession env w s) = Some (w1, s')"
    by (auto simp: prepareUnitOfWork_def Let_def split: if_splits Outcome.splits)
  from getSession_effects(4)[OF g] show ?thesis by simp
qed

lemma setTimestamp_commitTimestamp:
  assumes "after (setTimestamp env ts w s) = Some (w', s')"
  shows "commitTimestamp s' = commitTimestamp s"
proof -
  obtain w1 s1 where e: "ensureSession w s = (w1, s1)" by (cases "ensureSession w s")
  note E = ensureSession_frame[OF e]
  note pre = setTimestamp_pre[OF assms e]
  note eq = setTimestamp_unfold[OF e pre, of env ts]
  define sL where "sL = s1\<lparr>lastTimestampSet := Some ts\<rparr>"
  have "\<exists>w2 s2. after (getSession env w1 sL) = Some (w2, s2) \<and>
      (s' = s2 \<or> s' = s2\<lparr>isTimestamped := True\<rparr>)"
  proof (cases "getSession env w1 sL")
    case (Returned u w2 s2)
    with assms eq show ?thesis by (auto simp: sL_def split: if_splits)
  next
    case (Threw st w2 s2)
    with assms eq show ?thesis by (auto simp: sL_def)
  next
    case (Fatal k w2)
    with assms eq show ?thesis by (auto simp: sL_def)
  qed
  then obtain w2 s2 where g: "after (getSession env w1 sL) = Some (w2, s2)"
    and s': "s' = s2 \<or> s' = s2\<lparr>isTimestamped := True\<rparr>"
    by blast
  from s' have "commitTimestamp s' = commitTimestamp s2" by auto
  with getSession_effects(4)[OF g] E show ?thesis by (simp add: sL_def sameCore_def)
qed

lemma abandonSnapshot_commitTimestamp:
  assumes "after (abandonSnapshot env w s) = Some (w', s')"
  shows "commitTimestamp s' = commitTimestamp s"
proof (cases "isActive s")
  case True
  with assms obtain s1 where c: "txnClose env False w s = Returned () w' s1"
    and s': "s' = setState kInactive s1"
    by (auto simp: abandonSnapshot_def txnClose_not_Threw split: if_splits Outcome.splits)
  from txnClose_Returned(4)[OF c] s' show ?thesis by (simp add: setState_def)
next
  case False
  with assms show ?thesis by (auto simp: abandonSnapshot_def setState_def split: if_splits)
qed

lemma commit_commitTimestamp:
  assumes "after (commit env w s) = Some (w', s')"
  shows "commitTimestamp s' = commitTimestamp s"
proof -
  from assms obtain u where r: "commit env w s = Returned u w' s'"
    by (cases rule: after_Some_cases) (auto simp: commit_not_Threw)
  from r obtain w1 s1 where
    c: "if session s \<and> isActive s then txnClose env True w s = Returned () w1 s1
        else w1 = w \<and> s1 = s"
    and s': "s' = s1\<lparr>state := kInactive, changes := []\<rparr>"
    by (rule commit_Returned)
  have "commitTimestamp s1 = commitTimestamp s"
    using c by (auto split: if_splits dest: txnClose_Returned(4))
  with s' show ?thesis by simp
qed

lemma abort_commitTimestamp:
  assumes "after (abort env w s) = Some (w', s')"
  shows "commitTimestamp s' = commitTimestamp s"
proof -
  from assms obtain u where r: "abort env w s = Returned u w' s'"
    by (cases rule: after_Some_cases) (auto simp: abort_not_Threw)
  from r obtain w1 s1 where
    c: "if session s \<and> isActive s then txnClose env False w s = Returned () w1 s1
        else w1 = w \<and> s1 = s"
    and s': "s' = s1\<lparr>state := kInactive, changes := []\<rparr>"
    by (rule abort_Returned)
  have "commitTimestamp s1 = commitTimestamp s"
    using c by (auto split: if_splits dest: txnClose_Returned(4))
  with s' show ?thesis by simp
qed

text \<open>
  Only \<^verbatim>\<open>setCommitTimestamp\<close> and \<^verbatim>\<open>clearCommitTimestamp\<close> write the commit timestamp, and
  \<^verbatim>\<open>setCommitTimestamp\<close> returns only when it was empty.
\<close>

lemma step_commitTimestamp:
  assumes "after (step env op w s) = Some (w', s')"
  shows "commitTimestamp s' = commitTimestamp s \<or> op = ClearCommitTimestamp \<or>
         (\<exists>t. op = SetCommitTimestamp t \<and> isNull (commitTimestamp s))"
proof (cases op)
  case BeginUnitOfWork
  with assms show ?thesis by (auto simp: beginUnitOfWork_def setState_def split: if_splits)
next
  case PrepareUnitOfWork
  with assms prepareUnitOfWork_commitTimestamp[of env w s w' s'] show ?thesis by simp
next
  case CommitUnitOfWork
  with assms commit_commitTimestamp[of env w s w' s'] show ?thesis
    by (simp add: commitUnitOfWork_def split: if_splits)
next
  case AbortUnitOfWork
  with assms abort_commitTimestamp[of env w s w' s'] show ?thesis
    by (simp add: abortUnitOfWork_def split: if_splits)
next
  case (RegisterChange c)
  with assms show ?thesis by (auto simp: registerChange_def split: if_splits)
next
  case GetSession
  with assms getSession_effects(4)[of env w s w' s'] show ?thesis by simp
next
  case GetSessionNoTxn
  with assms show ?thesis
    by (auto simp: getSessionNoTxn_def ensureSession_def split: if_splits)
next
  case AbandonSnapshot
  with assms abandonSnapshot_commitTimestamp[of env w s w' s'] show ?thesis by simp
next
  case PreallocateSnapshot
  with assms getSession_effects(4)[of env w s w' s'] show ?thesis
    by (simp add: preallocateSnapshot_def)
next
  case WaitUntilDurableOp
  with assms show ?thesis by (auto simp: waitUntilDurable_def split: if_splits)
next
  case WaitUntilUnjournaledWritesDurable
  with assms show ?thesis
    by (auto simp: waitUntilUnjournaledWritesDurable_def split: if_splits)
next
  case ObtainMajorityCommittedSnapshot
  with assms show ?thesis
    by (auto simp: obtainMajorityCommittedSnapshot_def split: if_splits option.splits)
next
  case (SetTimestamp t)
  with assms setTimestamp_commitTimestamp[of env t w s w' s'] show ?thesis by simp
next
  case (SetCommitTimestamp t)
  with assms show ?thesis by (auto simp: setCommitTimestamp_def split: if_splits)
next
  case ClearCommitTimestamp
  then show ?thesis by simp
next
  case (SetPrepareTimestamp t)
  with assms show ?thesis by (auto simp: setPrepareTimestamp_def split: if_splits)
next
  case (SetIgnorePrepared v)
  with assms show ?thesis by (auto simp: setIgnorePrepared_def)
next
  case (SetTimestampReadSource r p)
  with assms show ?thesis by (auto simp: setTimestampReadSource_def split: if_splits)
next
  case BeginIdle
  with assms show ?thesis by (auto simp: beginIdle_def)
next
  case (SetOrderedCommit v)
  with assms show ?thesis by (auto simp: setOrderedCommit_def)
next
  case SetIsOplogReader
  with assms show ?thesis by (auto simp: setIsOplogReader_def)
qed

lemma run_commitTimestamp:
  "run ops w s = Some (w', s') \<Longrightarrow> \<not> isNull (commitTimestamp s) \<Longrightarrow>
   \<forall>x \<in> set ops. snd x \<noteq> ClearCommitTimestamp \<Longrightarrow>
   commitTimestamp s' = commitTimestamp s"
proof (induction ops arbitrary: w s)
  case Nil
  then show ?case by simp
next
  case (Cons a ops)
  obtain env op where a: "a = (env, op)" by (cases a)
  with Cons.prems(1) obtain w1 s1 where st: "after (step env op w s) = Some (w1, s1)"
    and r: "run ops w1 s1 = Some (w', s')"
    by (auto split: option.splits)
  from Cons.prems(3) a have ne: "op \<noteq> ClearCommitTimestamp"
    and rest: "\<forall>x \<in> set ops. snd x \<noteq> ClearCommitTimestamp"
    by simp_all
  from step_commitTimestamp[OF st] ne Cons.prems(2)
  have k: "commitTimestamp s1 = commitTimestamp s" by auto
  with Cons.prems(2) have "\<not> isNull (commitTimestamp s1)" by simp
  from Cons.IH[OF r this rest] k show ?case by simp
qed

subsection \<open>The trace of a commit and of an abort\<close>

lemma filter_ChangeCommit [simp]:
  "filter isChangeEvent (map (\<lambda>c. ChangeCommit c t) cs) = map (\<lambda>c. ChangeCommit c t) cs"
  by (induction cs) simp_all

lemma filter_ChangeRollback [simp]:
  "filter isChangeEvent (map ChangeRollback cs) = map ChangeRollback cs"
  by (induction cs) simp_all

lemma count_ChangeCommit [simp]:
  "count_list (map (\<lambda>c. ChangeCommit c t) cs) NotifyPreparedUnitOfWorkHasCommittedOrAborted = 0"
  "count_list (map (\<lambda>c. ChangeCommit c t) cs) CommitTransaction = 0"
  "count_list (map (\<lambda>c. ChangeCommit c t) cs) RollbackTransaction = 0"
  by (induction cs) simp_all

lemma count_ChangeRollback [simp]:
  "count_list (map ChangeRollback cs) NotifyPreparedUnitOfWorkHasCommittedOrAborted = 0"
  "count_list (map ChangeRollback cs) CommitTransaction = 0"
  "count_list (map ChangeRollback cs) RollbackTransaction = 0"
  by (induction cs) simp_all

text \<open>The events of a close hold no handler call and no notification.\<close>

lemma close_prefix:
  assumes "if session s \<and> isActive s then txnClose env c w s = Returned () w1 s1
           else w1 = w \<and> s1 = s"
  shows "\<exists>pre. events w1 = events w @ pre \<and> filter isChangeEvent pre = [] \<and>
           count_list pre NotifyPreparedUnitOfWorkHasCommittedOrAborted = 0 \<and>
           count_list pre CommitTransaction = (if session s \<and> isActive s \<and> c then 1 else 0) \<and>
           count_list pre RollbackTransaction = (if session s \<and> isActive s \<and> \<not> c then 1 else 0)"
    and "changes s1 = changes s"
proof -
  show "changes s1 = changes s"
    using assms by (auto split: if_splits dest!: txnClose_Returned(4))
  show "\<exists>pre. events w1 = events w @ pre \<and> filter isChangeEvent pre = [] \<and>
           count_list pre NotifyPreparedUnitOfWorkHasCommittedOrAborted = 0 \<and>
           count_list pre CommitTransaction = (if session s \<and> isActive s \<and> c then 1 else 0) \<and>
           count_list pre RollbackTransaction = (if session s \<and> isActive s \<and> \<not> c then 1 else 0)"
  proof (cases "session s \<and> isActive s")
    case True
    with assms have "txnClose env c w s = Returned () w1 s1" by simp
    from txnClose_Returned(2)[OF this] True show ?thesis by simp
  next
    case False
    with assms have "events w1 = events w @ []" by auto
    with False show ?thesis by (intro exI[of _ "[]"]) auto
  qed
qed

lemma commit_trace:
  assumes "commit env w s = Returned u w' s'"
  shows "filter isChangeEvent (newEvents w w') =
           map (\<lambda>c. ChangeCommit c (if isNull (commitTimestamp s) then lastTimestampSet s
                                    else Some (commitTimestamp s))) (changes s)"
    and "count_list (newEvents w w') NotifyPreparedUnitOfWorkHasCommittedOrAborted =
           (if \<not> isNull (prepareTimestamp s) \<or> alwaysNotifyPrepareConflictWaiters env
            then 1 else 0)"
    and "changes s' = []"
proof -
  from assms obtain w1 s1 where
    c: "if session s \<and> isActive s then txnClose env True w s = Returned () w1 s1
        else w1 = w \<and> s1 = s"
    and ev: "events w' = events w1 @
       (if \<not> isNull (prepareTimestamp s) \<or> alwaysNotifyPrepareConflictWaiters env
        then [NotifyPreparedUnitOfWorkHasCommittedOrAborted] else []) @
       map (\<lambda>c. ChangeCommit c (if isNull (commitTimestamp s) then lastTimestampSet s
                                else Some (commitTimestamp s))) (changes s1)"
    and s': "s' = s1\<lparr>state := kInactive, changes := []\<rparr>"
    by (rule commit_Returned)
  from close_prefix[OF c] obtain pre where
    p: "events w1 = events w @ pre" "filter isChangeEvent pre = []"
       "count_list pre NotifyPreparedUnitOfWorkHasCommittedOrAborted = 0"
    and ch: "changes s1 = changes s"
    by blast
  let ?rest = "(if \<not> isNull (prepareTimestamp s) \<or> alwaysNotifyPrepareConflictWaiters env
        then [NotifyPreparedUnitOfWorkHasCommittedOrAborted] else []) @
       map (\<lambda>c. ChangeCommit c (if isNull (commitTimestamp s) then lastTimestampSet s
                                else Some (commitTimestamp s))) (changes s)"
  from ev p(1) ch have "events w' = events w @ (pre @ ?rest)" by simp
  then have n: "newEvents w w' = pre @ ?rest" by (rule newEvents_append)
  show "filter isChangeEvent (newEvents w w') =
           map (\<lambda>c. ChangeCommit c (if isNull (commitTimestamp s) then lastTimestampSet s
                                    else Some (commitTimestamp s))) (changes s)"
    unfolding n using p(2) by simp
  show "count_list (newEvents w w') NotifyPreparedUnitOfWorkHasCommittedOrAborted =
           (if \<not> isNull (prepareTimestamp s) \<or> alwaysNotifyPrepareConflictWaiters env
            then 1 else 0)"
    unfolding n using p(3) by simp
  show "changes s' = []" using s' by simp
qed

lemma abort_trace:
  assumes "abort env w s = Returned u w' s'"
  shows "filter isChangeEvent (newEvents w w') = map ChangeRollback (rev (changes s))"
    and "count_list (newEvents w w') NotifyPreparedUnitOfWorkHasCommittedOrAborted =
           (if \<not> isNull (prepareTimestamp s) \<or> alwaysNotifyPrepareConflictWaiters env
            then 1 else 0)"
    and "changes s' = []"
    and "count_list (newEvents w w') CommitTransaction = 0"
    and "count_list (newEvents w w') RollbackTransaction = (if session s \<and> isActive s then 1 else 0)"
proof -
  from assms obtain w1 s1 where
    c: "if session s \<and> isActive s then txnClose env False w s = Returned () w1 s1
        else w1 = w \<and> s1 = s"
    and ev: "events w' = events w1 @
       (if \<not> isNull (prepareTimestamp s) \<or> alwaysNotifyPrepareConflictWaiters env
        then [NotifyPreparedUnitOfWorkHasCommittedOrAborted] else []) @
       map ChangeRollback (rev (changes s1))"
    and s': "s' = s1\<lparr>state := kInactive, changes := []\<rparr>"
    by (rule abort_Returned)
  from close_prefix[OF c] obtain pre where
    p: "events w1 = events w @ pre" "filter isChangeEvent pre = []"
       "count_list pre NotifyPreparedUnitOfWorkHasCommittedOrAborted = 0"
       "count_list pre CommitTransaction = 0"
       "count_list pre RollbackTransaction = (if session s \<and> isActive s then 1 else 0)"
    and ch: "changes s1 = changes s"
    by auto
  let ?rest = "(if \<not> isNull (prepareTimestamp s) \<or> alwaysNotifyPrepareConflictWaiters env
        then [NotifyPreparedUnitOfWorkHasCommittedOrAborted] else []) @
       map ChangeRollback (rev (changes s))"
  from ev p(1) ch have "events w' = events w @ (pre @ ?rest)" by simp
  then have n: "newEvents w w' = pre @ ?rest" by (rule newEvents_append)
  show "filter isChangeEvent (newEvents w w') = map ChangeRollback (rev (changes s))"
    unfolding n using p(2) by simp
  show "count_list (newEvents w w') NotifyPreparedUnitOfWorkHasCommittedOrAborted =
           (if \<not> isNull (prepareTimestamp s) \<or> alwaysNotifyPrepareConflictWaiters env
            then 1 else 0)"
    unfolding n using p(3) by simp
  show "changes s' = []" using s' by simp
  show "count_list (newEvents w w') CommitTransaction = 0"
    unfolding n using p(4) by simp
  show "count_list (newEvents w w') RollbackTransaction = (if session s \<and> isActive s then 1 else 0)"
    unfolding n using p(5) by simp
qed

section \<open>The claims\<close>

text \<open>
  C1. Take a recovery unit after any sequence of operations, and a unit of work begun on it
  with \<^verbatim>\<open>beginUnitOfWork\<close>. Whatever is called before the end of the unit of work, the
  change list is then the sequence of the handlers passed to \<^verbatim>\<open>registerChange\<close>, in the
  order of the calls. \<^verbatim>\<open>commitUnitOfWork\<close> calls \<open>commit\<close> on each
  of them in that order, with the commit timestamp if there is one, else with the last
  timestamp set, else with none; \<^verbatim>\<open>abortUnitOfWork\<close> calls \<open>rollback\<close> on each of them in
  the reverse order; both leave the change list empty. Both return when the engine accepts
  the close and no handler throws.
\<close>

theorem change_handlers_run_in_order:
  assumes "constructor wi = (wc, sc)" and "run before wc sc = Some (wb, sb)"
    and "beginUnitOfWork wb sb = Returned () w0 s0"
    and "\<forall>x \<in> set ops. \<not> endsUnitOfWork (snd x)"
    and "run ops w0 s0 = Some (w, s)"
  shows "changes s = registered ops \<and>
    (\<forall>w' s'. commitUnitOfWork env w s = Returned () w' s' \<longrightarrow>
       filter isChangeEvent (newEvents w w') =
         map (\<lambda>h. ChangeCommit h
               (if \<not> isNull (commitTimestamp s) then Some (commitTimestamp s)
                else lastTimestampSet s))
           (registered ops) \<and>
       changes s' = []) \<and>
    (\<forall>w' s'. abortUnitOfWork env w s = Returned () w' s' \<longrightarrow>
       filter isChangeEvent (newEvents w w') = map ChangeRollback (rev (registered ops)) \<and>
       changes s' = []) \<and>
    (commit_rc env = 0 \<and> timestamp_rc env = 0 \<and> (\<forall>c. \<not> changeThrows env c) \<longrightarrow>
       (\<exists>w' s'. commitUnitOfWork env w s = Returned () w' s')) \<and>
    (rollback_rc env = 0 \<and> (\<forall>c. \<not> changeThrows env c) \<longrightarrow>
       (\<exists>w' s'. abortUnitOfWork env w s = Returned () w' s'))"
proof -
  from constructor_ruInv[OF assms(1)] run_ruInv[OF assms(2)] have ib: "ruInv sb" by simp
  from assms(3) have "after (beginUnitOfWork wb sb) = Some (w0, s0)" by simp
  from beginUnitOfWork_effects(2)[OF this] ib have i0: "ruInv s0" by simp
  from assms(3) have b: "\<not> inUnitOfWork sb" "inUnitOfWork s0" "changes s0 = changes sb"
    by (auto simp: beginUnitOfWork_def pred_defs split: if_splits)
  with ib have c0: "changes s0 = []" by (simp add: ruInv_def)
  from run_in_unit_of_work[OF assms(5) b(2) assms(4)] c0
  have u: "inUnitOfWork s" and ch: "changes s = registered ops" by simp_all
  from run_ruInv[OF assms(5) i0] have inv: "ruInv s" .
  have c: "filter isChangeEvent (newEvents w w') =
         map (\<lambda>h. ChangeCommit h
               (if \<not> isNull (commitTimestamp s) then Some (commitTimestamp s)
                else lastTimestampSet s))
           (registered ops) \<and> changes s' = []"
    if "commitUnitOfWork env w s = Returned () w' s'" for w' s'
  proof -
    from that u have "commit env w s = Returned () w' s'" by (simp add: commitUnitOfWork_def)
    from commit_trace(1,3)[OF this] ch show ?thesis by (simp cong: if_cong)
  qed
  have a: "filter isChangeEvent (newEvents w w') = map ChangeRollback (rev (registered ops)) \<and>
       changes s' = []"
    if "abortUnitOfWork env w s = Returned () w' s'" for w' s'
  proof -
    from that u have "abort env w s = Returned () w' s'" by (simp add: abortUnitOfWork_def)
    from abort_trace(1,3)[OF this] ch show ?thesis by simp
  qed
  have rc: "\<exists>w' s'. commitUnitOfWork env w s = Returned () w' s'"
    if "commit_rc env = 0 \<and> timestamp_rc env = 0 \<and> (\<forall>c. \<not> changeThrows env c)"
    using commit_returns[of s env w] that inv u
    by (auto simp: commitUnitOfWork_def ruInv_def)
  have ra: "\<exists>w' s'. abortUnitOfWork env w s = Returned () w' s'"
    if "rollback_rc env = 0 \<and> (\<forall>c. \<not> changeThrows env c)"
    using abort_returns[of s env w] that inv u
    by (auto simp: abortUnitOfWork_def ruInv_def)
  from ch c a rc ra show ?thesis by blast
qed

lemma okEnv_accepts:
  "commit_rc okEnv = 0" "rollback_rc okEnv = 0" "timestamp_rc okEnv = 0"
  "prepare_rc okEnv = 0" "\<forall>c. \<not> changeThrows okEnv c"
  "\<not> alwaysNotifyPrepareConflictWaiters okEnv"
  by (simp_all add: okEnv_def)

theorem change_handlers_run_in_order_witness:
  "constructor initialWorld = (freshWorld, freshUnit) \<and>
   run [] freshWorld freshUnit = Some (freshWorld, freshUnit) \<and>
   beginUnitOfWork freshWorld freshUnit = Returned () freshWorld unitInWork \<and>
   (case run twoHandlers freshWorld unitInWork of
      None \<Rightarrow> False
    | Some (w, s) \<Rightarrow>
        changes s = [1, 2] \<and>
        (case commitUnitOfWork okEnv w s of
           Returned u w' s' \<Rightarrow>
             filter isChangeEvent (newEvents w w') =
               [ChangeCommit 1 (Some 7), ChangeCommit 2 (Some 7)] \<and> changes s' = []
         | Threw st w' s' \<Rightarrow> False
         | Fatal k w' \<Rightarrow> False) \<and>
        (case abortUnitOfWork okEnv w s of
           Returned u w' s' \<Rightarrow>
             filter isChangeEvent (newEvents w w') = [ChangeRollback 2, ChangeRollback 1] \<and>
             changes s' = []
         | Threw st w' s' \<Rightarrow> False
         | Fatal k w' \<Rightarrow> False))"
proof -
  have start: "constructor initialWorld = (freshWorld, freshUnit)"
    "run [] freshWorld freshUnit = Some (freshWorld, freshUnit)"
    "beginUnitOfWork freshWorld freshUnit = Returned () freshWorld unitInWork"
    by (simp_all add: freshWorld_def freshUnit_def unitInWork_def beginUnitOfWork_def
        constructor_def fetchAndAdd_def pred_defs)
  have body: "\<forall>x \<in> set twoHandlers. \<not> endsUnitOfWork (snd x)"
    by (simp add: twoHandlers_def)
  have reg: "registered twoHandlers = [1, 2]"
    by (simp add: twoHandlers_def)
  have "case run twoHandlers freshWorld unitInWork of
          None \<Rightarrow> False
        | Some (w, s) \<Rightarrow> lastTimestampSet s = Some 7 \<and> isNull (commitTimestamp s)"
    by code_simp
  then obtain w s where r: "run twoHandlers freshWorld unitInWork = Some (w, s)"
    and t: "lastTimestampSet s = Some 7" "isNull (commitTimestamp s)"
    by (auto split: option.splits)
  note T = change_handlers_run_in_order[OF start body r, of okEnv, unfolded reg]
  from T okEnv_accepts obtain wc sc where c: "commitUnitOfWork okEnv w s = Returned () wc sc"
    by blast
  from T okEnv_accepts obtain wa sa where a: "abortUnitOfWork okEnv w s = Returned () wa sa"
    by blast
  from T c t have "filter isChangeEvent (newEvents w wc) =
      [ChangeCommit 1 (Some 7), ChangeCommit 2 (Some 7)] \<and> changes sc = []"
    by simp
  moreover from T a have "filter isChangeEvent (newEvents w wa) =
      [ChangeRollback 2, ChangeRollback 1] \<and> changes sa = []"
    by simp
  moreover from T have "changes s = [1, 2]" by simp
  ultimately show ?thesis
    using start r c a by simp
qed

text \<open>
  C2 as stated fails: \<^verbatim>\<open>_txnClose\<close> resets \<open>lastTimestampSet\<close> and \<open>prepareTimestamp\<close> but
  never writes \<open>commitTimestamp\<close>. A commit timestamp of 9 set before a unit of work is
  still 9 after the commit has closed the transaction, and still 9 when \<^verbatim>\<open>getSession\<close>
  has opened the next transaction.
\<close>

theorem commitTimestamp_survives_close:
  "case run commitTimestampWork freshWorld freshUnit of
     None \<Rightarrow> False
   | Some (w, s) \<Rightarrow>
       (case txnClose okEnv True w s of
          Returned u w1 s1 \<Rightarrow>
            commitTimestamp s1 = 9 \<and> \<not> isNull (commitTimestamp s1) \<and>
            (case run [(okEnv, CommitUnitOfWork), (okEnv, GetSession)] w s of
               None \<Rightarrow> False
             | Some (w2, s2) \<Rightarrow> isActive s2 \<and> commitTimestamp s2 = 9)
        | Threw st w1 s1 \<Rightarrow> False
        | Fatal k w1 \<Rightarrow> False)"
  by code_simp

text \<open>
  C2, amended. A transaction close, committing or rolling back, leaves \<open>commitTimestamp\<close> as
  it was, and empties \<open>lastTimestampSet\<close> and \<open>prepareTimestamp\<close>. The commit timestamp is
  emptied by \<^verbatim>\<open>clearCommitTimestamp\<close>, which returns only outside a unit of work, with a
  commit timestamp to clear, no last timestamp set and no timestamped transaction, and by
  nothing else: every other operation that returns or throws leaves a non-empty commit
  timestamp as it was. So after any sequence of operations without
  \<^verbatim>\<open>clearCommitTimestamp\<close>, through commits, aborts and newly opened transactions, a
  commit timestamp that was set is still the same.
\<close>

theorem txnClose_keeps_commitTimestamp:
  "(txnClose env c w s = Returned u w' s' \<longrightarrow>
      commitTimestamp s' = commitTimestamp s \<and> lastTimestampSet s' = None \<and>
      isNull (prepareTimestamp s')) \<and>
   (clearCommitTimestamp w s = Returned u w' s' \<longrightarrow>
      isNull (commitTimestamp s') \<and> \<not> inUnitOfWork s \<and> \<not> isNull (commitTimestamp s) \<and>
      lastTimestampSet s = None \<and> \<not> isTimestamped s) \<and>
   (\<forall>env1 op w1 s1 w2 s2.
      after (step env1 op w1 s1) = Some (w2, s2) \<and> \<not> isNull (commitTimestamp s1) \<and>
      op \<noteq> ClearCommitTimestamp \<longrightarrow>
      commitTimestamp s2 = commitTimestamp s1) \<and>
   (\<forall>ops w1 s1 w2 s2.
      run ops w1 s1 = Some (w2, s2) \<and> \<not> isNull (commitTimestamp s1) \<and>
      (\<forall>x \<in> set ops. snd x \<noteq> ClearCommitTimestamp) \<longrightarrow>
      commitTimestamp s2 = commitTimestamp s1)"
proof -
  have a: "commitTimestamp s' = commitTimestamp s \<and> lastTimestampSet s' = None \<and>
      isNull (prepareTimestamp s')"
    if "txnClose env c w s = Returned u w' s'"
    using txnClose_Returned(4)[OF that] by (simp add: isNull_def)
  have b: "isNull (commitTimestamp s') \<and> \<not> inUnitOfWork s \<and> \<not> isNull (commitTimestamp s) \<and>
      lastTimestampSet s = None \<and> \<not> isTimestamped s"
    if "clearCommitTimestamp w s = Returned u w' s'"
    using that by (auto simp: clearCommitTimestamp_def isNull_def split: if_splits)
  have c: "commitTimestamp s2 = commitTimestamp s1"
    if "after (step env1 op w1 s1) = Some (w2, s2) \<and> \<not> isNull (commitTimestamp s1) \<and>
        op \<noteq> ClearCommitTimestamp"
    for env1 op w1 s1 w2 s2
    using that step_commitTimestamp[of env1 op w1 s1 w2 s2] by auto
  have d: "commitTimestamp s2 = commitTimestamp s1"
    if "run ops w1 s1 = Some (w2, s2) \<and> \<not> isNull (commitTimestamp s1) \<and>
        (\<forall>x \<in> set ops. snd x \<noteq> ClearCommitTimestamp)"
    for ops w1 s1 w2 s2
    using that run_commitTimestamp[of ops w1 s1 w2 s2] by blast
  show ?thesis
  proof (intro conjI allI)
    show "txnClose env c w s = Returned u w' s' \<longrightarrow>
      commitTimestamp s' = commitTimestamp s \<and> lastTimestampSet s' = None \<and>
      isNull (prepareTimestamp s')"
      using a by (rule impI)
    show "clearCommitTimestamp w s = Returned u w' s' \<longrightarrow>
      isNull (commitTimestamp s') \<and> \<not> inUnitOfWork s \<and> \<not> isNull (commitTimestamp s) \<and>
      lastTimestampSet s = None \<and> \<not> isTimestamped s"
      using b by (rule impI)
    show "after (step env1 op w1 s1) = Some (w2, s2) \<and> \<not> isNull (commitTimestamp s1) \<and>
      op \<noteq> ClearCommitTimestamp \<longrightarrow>
      commitTimestamp s2 = commitTimestamp s1" for env1 op w1 s1 w2 s2
      using c by (rule impI)
    show "run ops w1 s1 = Some (w2, s2) \<and> \<not> isNull (commitTimestamp s1) \<and>
      (\<forall>x \<in> set ops. snd x \<noteq> ClearCommitTimestamp) \<longrightarrow>
      commitTimestamp s2 = commitTimestamp s1" for ops w1 s1 w2 s2
      using d by (rule impI)
  qed
qed

theorem txnClose_keeps_commitTimestamp_witness:
  "case run commitTimestampWork freshWorld freshUnit of
     None \<Rightarrow> False
   | Some (w, s) \<Rightarrow>
       \<not> isNull (commitTimestamp s) \<and>
       (case txnClose okEnv True w s of
          Returned u w1 s1 \<Rightarrow>
            commitTimestamp s1 = commitTimestamp s \<and> lastTimestampSet s1 = None \<and>
            isNull (prepareTimestamp s1) \<and>
            (case clearCommitTimestamp w1 (setState kInactive s1) of
               Returned u w2 s2 \<Rightarrow> isNull (commitTimestamp s2)
             | Threw st w2 s2 \<Rightarrow> False
             | Fatal k w2 \<Rightarrow> False)
        | Threw st w1 s1 \<Rightarrow> False
        | Fatal k w1 \<Rightarrow> False) \<and>
       (case run [(okEnv, CommitUnitOfWork), (okEnv, GetSession), (okEnv, AbandonSnapshot)] w s of
          None \<Rightarrow> False
        | Some (w3, s3) \<Rightarrow> commitTimestamp s3 = commitTimestamp s)"
proof -
  let ?next = "[(okEnv, CommitUnitOfWork), (okEnv, GetSession), (okEnv, AbandonSnapshot)]"
  have "case run commitTimestampWork freshWorld freshUnit of
          None \<Rightarrow> False
        | Some (w, s) \<Rightarrow>
            \<not> isNull (commitTimestamp s) \<and>
            (case txnClose okEnv True w s of
               Returned u w1 s1 \<Rightarrow>
                 (case clearCommitTimestamp w1 (setState kInactive s1) of
                    Returned u w2 s2 \<Rightarrow> True
                  | Threw st w2 s2 \<Rightarrow> False
                  | Fatal k w2 \<Rightarrow> False)
             | Threw st w1 s1 \<Rightarrow> False
             | Fatal k w1 \<Rightarrow> False) \<and>
            (case run [(okEnv, CommitUnitOfWork), (okEnv, GetSession),
                       (okEnv, AbandonSnapshot)] w s of
               None \<Rightarrow> False | Some (w3, s3) \<Rightarrow> True)"
    by code_simp
  note e = this
  from e obtain w s where r: "run commitTimestampWork freshWorld freshUnit = Some (w, s)"
    by (cases "run commitTimestampWork freshWorld freshUnit") auto
  from e r have n: "\<not> isNull (commitTimestamp s)" by simp
  from e r obtain w1 s1 where c: "txnClose okEnv True w s = Returned () w1 s1"
    by (cases "txnClose okEnv True w s") auto
  from e r c obtain w2 s2 where
    k: "clearCommitTimestamp w1 (setState kInactive s1) = Returned () w2 s2"
    by (cases "clearCommitTimestamp w1 (setState kInactive s1)") auto
  from e r obtain w3 s3 where x: "run ?next w s = Some (w3, s3)"
    by (cases "run ?next w s") auto
  have o: "\<forall>x \<in> set ?next. snd x \<noteq> ClearCommitTimestamp" by simp
  note T = txnClose_keeps_commitTimestamp[of okEnv True w s "()" w1 s1]
  note U = txnClose_keeps_commitTimestamp[of okEnv True w1 "setState kInactive s1" "()" w2 s2]
  from T[THEN conjunct1] c
  have 1: "commitTimestamp s1 = commitTimestamp s \<and> lastTimestampSet s1 = None \<and>
        isNull (prepareTimestamp s1)"
    by (rule mp)
  from U[THEN conjunct2, THEN conjunct1] k
  have "isNull (commitTimestamp s2) \<and> \<not> inUnitOfWork (setState kInactive s1) \<and>
      \<not> isNull (commitTimestamp (setState kInactive s1)) \<and>
      lastTimestampSet (setState kInactive s1) = None \<and>
      \<not> isTimestamped (setState kInactive s1)"
    by (rule mp)
  then have 2: "isNull (commitTimestamp s2)" by (rule conjunct1)
  from x n o have "run ?next w s = Some (w3, s3) \<and> \<not> isNull (commitTimestamp s) \<and>
      (\<forall>x \<in> set ?next. snd x \<noteq> ClearCommitTimestamp)"
    by (intro conjI)
  with T[THEN conjunct2, THEN conjunct2, THEN conjunct2, rule_format, of ?next w s w3 s3]
  have 3: "commitTimestamp s3 = commitTimestamp s" by (elim conjE) blast
  from r n c k x 1 2 3 show ?thesis by simp
qed



text \<open>
  C4. Take a transaction close that gets as far as the test of \<open>isTimestamped\<close> at line
  297: every close that returns does, and so does a commit that the engine then fails. It
  calls \<^verbatim>\<open>triggerJournalFlush\<close> exactly once, directly after the engine's commit or
  rollback call, if at that test \<open>isTimestamped\<close> is true and \<open>orderedCommit\<close> is false;
  if \<open>isTimestamped\<close> is false or \<open>orderedCommit\<close> is true there, it does not call it.
  At the test \<open>orderedCommit\<close> is as it was at the call, and \<open>isTimestamped\<close> is true
  exactly when it was true at the call or the close is a commit that has applied a
  non-empty commit timestamp (line 286).
\<close>

theorem txnClose_journal_flush:
  "(txnClose env c w s = Returned u w' s' \<longrightarrow>
      isActive s \<and> session s \<and>
      (\<exists>wtRet w1 s1. txnCloseEngine env c w s = Returned wtRet w1 s1)) \<and>
   (isActive s \<and> session s \<and> txnCloseEngine env c w s = Returned wtRet w1 s1 \<longrightarrow>
      newEvents w (worldOf (txnClose env c w s)) =
        (if c \<and> \<not> isNull (commitTimestamp s)
         then [TimestampTransaction (commitTimestamp s)] else []) @
        [if c then CommitTransaction else RollbackTransaction] @
        (if isTimestamped s1 \<and> \<not> orderedCommit s1 then [TriggerJournalFlush] else []) @
        (if wtRet = 0 \<and> (lastTimestampSet s = None \<or> isNull (commitTimestamp s))
         then [SnapshotIdAssigned (nextSnapshotId w)] else []) \<and>
      count_list (newEvents w (worldOf (txnClose env c w s))) TriggerJournalFlush =
        (if isTimestamped s1 \<and> \<not> orderedCommit s1 then 1 else 0) \<and>
      isTimestamped s1 = (isTimestamped s \<or> c \<and> \<not> isNull (commitTimestamp s)) \<and>
      orderedCommit s1 = orderedCommit s)"
proof -
  have a: "isActive s \<and> session s \<and>
      (\<exists>wtRet w1 s1. txnCloseEngine env c w s = Returned wtRet w1 s1)"
    if r: "txnClose env c w s = Returned u w' s'"
  proof -
    from txnClose_Returned(1)[OF r] have p: "isActive s \<and> session s" .
    with r show ?thesis by (cases "txnCloseEngine env c w s") (auto simp: txnClose_def)
  qed
  have b: "newEvents w (worldOf (txnClose env c w s)) =
        (if c \<and> \<not> isNull (commitTimestamp s)
         then [TimestampTransaction (commitTimestamp s)] else []) @
        [if c then CommitTransaction else RollbackTransaction] @
        (if isTimestamped s1 \<and> \<not> orderedCommit s1 then [TriggerJournalFlush] else []) @
        (if wtRet = 0 \<and> (lastTimestampSet s = None \<or> isNull (commitTimestamp s))
         then [SnapshotIdAssigned (nextSnapshotId w)] else []) \<and>
      count_list (newEvents w (worldOf (txnClose env c w s))) TriggerJournalFlush =
        (if isTimestamped s1 \<and> \<not> orderedCommit s1 then 1 else 0) \<and>
      isTimestamped s1 = (isTimestamped s \<or> c \<and> \<not> isNull (commitTimestamp s)) \<and>
      orderedCommit s1 = orderedCommit s"
    if h: "isActive s \<and> session s \<and> txnCloseEngine env c w s = Returned wtRet w1 s1"
  proof -
    from h have e: "txnCloseEngine env c w s = Returned wtRet w1 s1" by simp
    note E = txnCloseEngine_Returned[OF e]
    from h e have t: "txnClose env c w s = txnCloseFinish wtRet w1 s1"
      by (simp add: txnClose_def)
    from E(2) have f: "isTimestamped s1 = (isTimestamped s \<or> c \<and> \<not> isNull (commitTimestamp s))"
      "orderedCommit s1 = orderedCommit s" "lastTimestampSet s1 = lastTimestampSet s"
      "commitTimestamp s1 = commitTimestamp s"
      by (auto split: if_splits)
    have "events (worldOf (txnCloseFinish wtRet w1 s1)) = events w1 @
        (if isTimestamped s1 \<and> \<not> orderedCommit s1 then [TriggerJournalFlush] else []) @
        (if wtRet = 0 \<and> (lastTimestampSet s1 = None \<or> isNull (commitTimestamp s1))
         then [SnapshotIdAssigned (nextSnapshotId w1)] else [])"
      by (simp add: txnCloseFinish_def fetchAndAdd_def Let_def)
    with E(3,4) f(3,4) t
    have "events (worldOf (txnClose env c w s)) = events w @
        ((if c \<and> \<not> isNull (commitTimestamp s)
          then [TimestampTransaction (commitTimestamp s)] else []) @
         [if c then CommitTransaction else RollbackTransaction] @
         (if isTimestamped s1 \<and> \<not> orderedCommit s1 then [TriggerJournalFlush] else []) @
         (if wtRet = 0 \<and> (lastTimestampSet s = None \<or> isNull (commitTimestamp s))
          then [SnapshotIdAssigned (nextSnapshotId w)] else []))"
      by simp
    then have n: "newEvents w (worldOf (txnClose env c w s)) =
         (if c \<and> \<not> isNull (commitTimestamp s)
          then [TimestampTransaction (commitTimestamp s)] else []) @
         [if c then CommitTransaction else RollbackTransaction] @
         (if isTimestamped s1 \<and> \<not> orderedCommit s1 then [TriggerJournalFlush] else []) @
         (if wtRet = 0 \<and> (lastTimestampSet s = None \<or> isNull (commitTimestamp s))
          then [SnapshotIdAssigned (nextSnapshotId w)] else [])"
      by (rule newEvents_append)
    have "count_list (newEvents w (worldOf (txnClose env c w s))) TriggerJournalFlush =
        (if isTimestamped s1 \<and> \<not> orderedCommit s1 then 1 else 0)"
      unfolding n by simp
    with n f(1,2) show ?thesis by blast
  qed
  show ?thesis
  proof (intro conjI)
    show "txnClose env c w s = Returned u w' s' \<longrightarrow>
      isActive s \<and> session s \<and>
      (\<exists>wtRet w1 s1. txnCloseEngine env c w s = Returned wtRet w1 s1)"
      using a by (rule impI)
    show "isActive s \<and> session s \<and> txnCloseEngine env c w s = Returned wtRet w1 s1 \<longrightarrow>
      newEvents w (worldOf (txnClose env c w s)) =
        (if c \<and> \<not> isNull (commitTimestamp s)
         then [TimestampTransaction (commitTimestamp s)] else []) @
        [if c then CommitTransaction else RollbackTransaction] @
        (if isTimestamped s1 \<and> \<not> orderedCommit s1 then [TriggerJournalFlush] else []) @
        (if wtRet = 0 \<and> (lastTimestampSet s = None \<or> isNull (commitTimestamp s))
         then [SnapshotIdAssigned (nextSnapshotId w)] else []) \<and>
      count_list (newEvents w (worldOf (txnClose env c w s))) TriggerJournalFlush =
        (if isTimestamped s1 \<and> \<not> orderedCommit s1 then 1 else 0) \<and>
      isTimestamped s1 = (isTimestamped s \<or> c \<and> \<not> isNull (commitTimestamp s)) \<and>
      orderedCommit s1 = orderedCommit s"
      using b by (rule impI)
  qed
qed

text \<open>
  Four closes: a timestamped unordered commit (scenario 7); a commit whose timestamp is
  applied by the close itself; a timestamped unordered commit that the engine fails; a
  timestamped ordered commit.
\<close>

theorem txnClose_journal_flush_witness:
  "(case run unorderedWork freshWorld unitInWork of
      None \<Rightarrow> False
    | Some (w, s) \<Rightarrow>
        isActive s \<and> session s \<and>
        (case txnCloseEngine okEnv True w s of
           Returned wtRet w1 s1 \<Rightarrow>
             isTimestamped s1 \<and> orderedCommit s1 = False \<and>
             newEvents w (worldOf (txnClose okEnv True w s)) =
               [CommitTransaction, TriggerJournalFlush, SnapshotIdAssigned (nextSnapshotId w)] \<and>
             count_list (newEvents w (worldOf (txnClose okEnv True w s))) TriggerJournalFlush = 1
         | Threw st w1 s1 \<Rightarrow> False
         | Fatal k w1 \<Rightarrow> False) \<and>
        (case txnCloseEngine failingCommitEnv True w s of
           Returned wtRet w1 s1 \<Rightarrow>
             isTimestamped s1 \<and> orderedCommit s1 = False \<and> wtRet = 1 \<and>
             newEvents w (worldOf (txnClose failingCommitEnv True w s)) =
               [CommitTransaction, TriggerJournalFlush] \<and>
             count_list (newEvents w (worldOf (txnClose failingCommitEnv True w s)))
               TriggerJournalFlush = 1
         | Threw st w1 s1 \<Rightarrow> False
         | Fatal k w1 \<Rightarrow> False)) \<and>
   (case run commitTimestampWork freshWorld freshUnit of
      None \<Rightarrow> False
    | Some (w, s) \<Rightarrow>
        isActive s \<and> session s \<and> isTimestamped s = False \<and>
        (case txnCloseEngine okEnv True w s of
           Returned wtRet w1 s1 \<Rightarrow>
             isTimestamped s1 \<and> orderedCommit s1 = False \<and>
             count_list (newEvents w (worldOf (txnClose okEnv True w s))) TriggerJournalFlush = 1
         | Threw st w1 s1 \<Rightarrow> False
         | Fatal k w1 \<Rightarrow> False)) \<and>
   (case run twoHandlers freshWorld unitInWork of
      None \<Rightarrow> False
    | Some (w, s) \<Rightarrow>
        isActive s \<and> session s \<and>
        (case txnCloseEngine okEnv True w s of
           Returned wtRet w1 s1 \<Rightarrow>
             isTimestamped s1 \<and> orderedCommit s1 \<and>
             count_list (newEvents w (worldOf (txnClose okEnv True w s))) TriggerJournalFlush = 0
         | Threw st w1 s1 \<Rightarrow> False
         | Fatal k w1 \<Rightarrow> False))"
proof -
  have A: "case run unorderedWork freshWorld unitInWork of
      None \<Rightarrow> False
    | Some (w, s) \<Rightarrow>
        isActive s \<and> session s \<and> isNull (commitTimestamp s) \<and>
        (case txnCloseEngine okEnv True w s of
           Returned wtRet w1 s1 \<Rightarrow> isTimestamped s1 \<and> \<not> orderedCommit s1 \<and> wtRet = 0
         | Threw st w1 s1 \<Rightarrow> False
         | Fatal k w1 \<Rightarrow> False) \<and>
        (case txnCloseEngine failingCommitEnv True w s of
           Returned wtRet w1 s1 \<Rightarrow> isTimestamped s1 \<and> \<not> orderedCommit s1 \<and> wtRet = 1
         | Threw st w1 s1 \<Rightarrow> False
         | Fatal k w1 \<Rightarrow> False)"
    by code_simp
  from A obtain wa sa where ra: "run unorderedWork freshWorld unitInWork = Some (wa, sa)"
    by (cases "run unorderedWork freshWorld unitInWork") auto
  from A ra have fa: "isActive sa" "session sa" "isNull (commitTimestamp sa)" by simp_all
  from A ra obtain rc1 w1 s1 where e1: "txnCloseEngine okEnv True wa sa = Returned rc1 w1 s1"
    by (cases "txnCloseEngine okEnv True wa sa") auto
  from A ra e1 have f1: "isTimestamped s1" "\<not> orderedCommit s1" "rc1 = 0" by simp_all
  from A ra obtain rc2 w2 s2 where
    e2: "txnCloseEngine failingCommitEnv True wa sa = Returned rc2 w2 s2"
    by (cases "txnCloseEngine failingCommitEnv True wa sa") auto
  from A ra e2 have f2: "isTimestamped s2" "\<not> orderedCommit s2" "rc2 = 1" by simp_all
  from txnClose_journal_flush[of okEnv True wa sa "()" wa sa rc1 w1 s1,
      THEN conjunct2, THEN mp] fa e1
  have "newEvents wa (worldOf (txnClose okEnv True wa sa)) =
        (if True \<and> \<not> isNull (commitTimestamp sa)
         then [TimestampTransaction (commitTimestamp sa)] else []) @
        [if True then CommitTransaction else RollbackTransaction] @
        (if isTimestamped s1 \<and> \<not> orderedCommit s1 then [TriggerJournalFlush] else []) @
        (if rc1 = 0 \<and> (lastTimestampSet sa = None \<or> isNull (commitTimestamp sa))
         then [SnapshotIdAssigned (nextSnapshotId wa)] else []) \<and>
      count_list (newEvents wa (worldOf (txnClose okEnv True wa sa))) TriggerJournalFlush =
        (if isTimestamped s1 \<and> \<not> orderedCommit s1 then 1 else 0) \<and>
      isTimestamped s1 = (isTimestamped sa \<or> True \<and> \<not> isNull (commitTimestamp sa)) \<and>
      orderedCommit s1 = orderedCommit sa"
    by blast
  with fa f1 have 1: "newEvents wa (worldOf (txnClose okEnv True wa sa)) =
        [CommitTransaction, TriggerJournalFlush, SnapshotIdAssigned (nextSnapshotId wa)] \<and>
      count_list (newEvents wa (worldOf (txnClose okEnv True wa sa))) TriggerJournalFlush = 1"
    by simp
  from txnClose_journal_flush[of failingCommitEnv True wa sa "()" wa sa rc2 w2 s2,
      THEN conjunct2, THEN mp] fa e2
  have "newEvents wa (worldOf (txnClose failingCommitEnv True wa sa)) =
        (if True \<and> \<not> isNull (commitTimestamp sa)
         then [TimestampTransaction (commitTimestamp sa)] else []) @
        [if True then CommitTransaction else RollbackTransaction] @
        (if isTimestamped s2 \<and> \<not> orderedCommit s2 then [TriggerJournalFlush] else []) @
        (if rc2 = 0 \<and> (lastTimestampSet sa = None \<or> isNull (commitTimestamp sa))
         then [SnapshotIdAssigned (nextSnapshotId wa)] else []) \<and>
      count_list (newEvents wa (worldOf (txnClose failingCommitEnv True wa sa)))
        TriggerJournalFlush =
        (if isTimestamped s2 \<and> \<not> orderedCommit s2 then 1 else 0) \<and>
      isTimestamped s2 = (isTimestamped sa \<or> True \<and> \<not> isNull (commitTimestamp sa)) \<and>
      orderedCommit s2 = orderedCommit sa"
    by blast
  with fa f2 have 2: "newEvents wa (worldOf (txnClose failingCommitEnv True wa sa)) =
        [CommitTransaction, TriggerJournalFlush] \<and>
      count_list (newEvents wa (worldOf (txnClose failingCommitEnv True wa sa)))
        TriggerJournalFlush = 1"
    by simp
  have B: "case run commitTimestampWork freshWorld freshUnit of
      None \<Rightarrow> False
    | Some (w, s) \<Rightarrow>
        isActive s \<and> session s \<and> isTimestamped s = False \<and>
        (case txnCloseEngine okEnv True w s of
           Returned wtRet w1 s1 \<Rightarrow> isTimestamped s1 \<and> \<not> orderedCommit s1
         | Threw st w1 s1 \<Rightarrow> False
         | Fatal k w1 \<Rightarrow> False)"
    by code_simp
  from B obtain wb sb where rb: "run commitTimestampWork freshWorld freshUnit = Some (wb, sb)"
    by (cases "run commitTimestampWork freshWorld freshUnit") auto
  from B rb have fb: "isActive sb" "session sb" "isTimestamped sb = False" by simp_all
  from B rb obtain rc3 w3 s3 where e3: "txnCloseEngine okEnv True wb sb = Returned rc3 w3 s3"
    by (cases "txnCloseEngine okEnv True wb sb") auto
  from B rb e3 have f3: "isTimestamped s3" "\<not> orderedCommit s3" by simp_all
  from txnClose_journal_flush[of okEnv True wb sb "()" wb sb rc3 w3 s3,
      THEN conjunct2, THEN mp] fb e3
  have "count_list (newEvents wb (worldOf (txnClose okEnv True wb sb))) TriggerJournalFlush =
        (if isTimestamped s3 \<and> \<not> orderedCommit s3 then 1 else 0)"
    by blast
  with f3 have 3: "count_list (newEvents wb (worldOf (txnClose okEnv True wb sb)))
      TriggerJournalFlush = 1"
    by simp
  have C: "case run twoHandlers freshWorld unitInWork of
      None \<Rightarrow> False
    | Some (w, s) \<Rightarrow>
        isActive s \<and> session s \<and>
        (case txnCloseEngine okEnv True w s of
           Returned wtRet w1 s1 \<Rightarrow> isTimestamped s1 \<and> orderedCommit s1
         | Threw st w1 s1 \<Rightarrow> False
         | Fatal k w1 \<Rightarrow> False)"
    by code_simp
  from C obtain wc sc where rc: "run twoHandlers freshWorld unitInWork = Some (wc, sc)"
    by (cases "run twoHandlers freshWorld unitInWork") auto
  from C rc have fc: "isActive sc" "session sc" by simp_all
  from C rc obtain rc4 w4 s4 where e4: "txnCloseEngine okEnv True wc sc = Returned rc4 w4 s4"
    by (cases "txnCloseEngine okEnv True wc sc") auto
  from C rc e4 have f4: "isTimestamped s4" "orderedCommit s4" by simp_all
  from txnClose_journal_flush[of okEnv True wc sc "()" wc sc rc4 w4 s4,
      THEN conjunct2, THEN mp] fc e4
  have "count_list (newEvents wc (worldOf (txnClose okEnv True wc sc))) TriggerJournalFlush =
        (if isTimestamped s4 \<and> \<not> orderedCommit s4 then 1 else 0)"
    by blast
  with f4 have 4: "count_list (newEvents wc (worldOf (txnClose okEnv True wc sc)))
      TriggerJournalFlush = 0"
    by simp
  from ra fa e1 f1 1 e2 f2 2 rb fb e3 f3 3 rc fc e4 f4 4 show ?thesis by simp
qed

text \<open>
  C6 as stated fails: called in a unit of work whose transaction is not open yet,
  \<^verbatim>\<open>prepareUnitOfWork\<close> opens it through \<^verbatim>\<open>getSession\<close>, which moves the state from
  InactiveInUnitOfWork to Active and acquires the session. This is the specification's
  scenario 4: \<^verbatim>\<open>beginUnitOfWork\<close>, \<^verbatim>\<open>setPrepareTimestamp(5)\<close>, \<^verbatim>\<open>prepareUnitOfWork\<close>.
\<close>

theorem prepareUnitOfWork_opens_transaction:
  "case run [(okEnv, SetPrepareTimestamp 5)] freshWorld unitInWork of
     None \<Rightarrow> False
   | Some (w, s) \<Rightarrow>
       (case prepareUnitOfWork okEnv w s of
          Returned u w' s' \<Rightarrow>
            state s = kInactiveInUnitOfWork \<and> state s' = kActive \<and> state s' \<noteq> state s \<and>
            session s = False \<and> session s' = True
        | Threw st w' s' \<Rightarrow> False
        | Fatal k w' \<Rightarrow> False)"
  by code_simp

text \<open>
  C6, amended. When \<^verbatim>\<open>prepareUnitOfWork\<close> returns, it was called in a unit of work with a
  prepare timestamp; it has gone through \<^verbatim>\<open>getSession\<close> and then, as its last call to
  the engine, through \<^verbatim>\<open>prepare_transaction\<close> with that timestamp; the unit of work is
  still open, in state Active. Called in state Active it changes no member of the recovery
  unit and calls nothing before the prepare. Called in state InactiveInUnitOfWork it first
  opens the transaction (\<^verbatim>\<open>_txnOpen\<close> returns, after calls to the engine that precede the
  prepare in the trace): the recovery unit is the one \<^verbatim>\<open>_txnOpen\<close> left, with state
  Active, so it holds a session, and the change list, the three timestamps,
  \<open>isTimestamped\<close>, \<open>orderedCommit\<close> and the snapshot id are as before. With a prepare
  timestamp and an engine that accepts the prepare it returns, in state Active at once, in
  state InactiveInUnitOfWork when \<^verbatim>\<open>_txnOpen\<close> returns.
\<close>

theorem prepareUnitOfWork_keeps_unit_open:
  "(prepareUnitOfWork env w s = Returned u w' s' \<longrightarrow>
      inUnitOfWork s \<and> \<not> isNull (prepareTimestamp s) \<and>
      (\<exists>wg. getSession env w s = Returned () wg s' \<and>
            w' = emit (PrepareTransaction (prepareTimestamp s)) wg) \<and>
      last (events w') = PrepareTransaction (prepareTimestamp s) \<and>
      inUnitOfWork s' \<and> state s' = kActive \<and>
      (state s = kActive \<longrightarrow>
         s' = s \<and> w' = emit (PrepareTransaction (prepareTimestamp s)) w) \<and>
      (state s = kInactiveInUnitOfWork \<longrightarrow>
         session s' \<and>
         (\<exists>wo so. txnOpen env w s = Returned () wo so \<and>
            length (events w) < length (events wo) \<and>
            s' = setState kActive so \<and>
            w' = emit (PrepareTransaction (prepareTimestamp s)) wo)) \<and>
      sameCore (s\<lparr>state := kActive\<rparr>) s') \<and>
   (state s = kActive \<and> \<not> isNull (prepareTimestamp s) \<and> prepare_rc env = 0 \<longrightarrow>
      prepareUnitOfWork env w s =
        Returned () (emit (PrepareTransaction (prepareTimestamp s)) w) s) \<and>
   (state s = kInactiveInUnitOfWork \<and> \<not> isNull (prepareTimestamp s) \<and> prepare_rc env = 0 \<and>
    txnOpen env w s = Returned () w1 s1 \<longrightarrow>
      prepareUnitOfWork env w s =
        Returned () (emit (PrepareTransaction (prepareTimestamp s)) w1) (setState kActive s1))"
proof -
  have a: "inUnitOfWork s \<and> \<not> isNull (prepareTimestamp s) \<and>
      (\<exists>wg. getSession env w s = Returned () wg s' \<and>
            w' = emit (PrepareTransaction (prepareTimestamp s)) wg) \<and>
      last (events w') = PrepareTransaction (prepareTimestamp s) \<and>
      inUnitOfWork s' \<and> state s' = kActive \<and>
      (state s = kActive \<longrightarrow>
         s' = s \<and> w' = emit (PrepareTransaction (prepareTimestamp s)) w) \<and>
      (state s = kInactiveInUnitOfWork \<longrightarrow>
         session s' \<and>
         (\<exists>wo so. txnOpen env w s = Returned () wo so \<and>
            length (events w) < length (events wo) \<and>
            s' = setState kActive so \<and>
            w' = emit (PrepareTransaction (prepareTimestamp s)) wo)) \<and>
      sameCore (s\<lparr>state := kActive\<rparr>) s'"
    if r: "prepareUnitOfWork env w s = Returned u w' s'"
  proof -
    from r have pre: "inUnitOfWork s" "\<not> isNull (prepareTimestamp s)"
      by (auto simp: prepareUnitOfWork_def split: if_splits)
    with r obtain wg where g: "getSession env w s = Returned () wg s'"
      and w0: "w' = emit (PrepareTransaction (prepareTimestamp s')) wg"
      by (auto simp: prepareUnitOfWork_def Let_def split: Outcome.splits if_splits)
    note G = getSession_Returned[OF g]
    from G pre have st: "state s' = kActive"
      by (auto simp: pred_defs)
    from G st have core: "sameCore (s\<lparr>state := kActive\<rparr>) s'" by simp
    then have pt: "prepareTimestamp s' = prepareTimestamp s" by (simp add: sameCore_def)
    from w0 pt have w': "w' = emit (PrepareTransaction (prepareTimestamp s)) wg" by simp
    from G w' have same: "state s = kActive \<longrightarrow>
        s' = s \<and> w' = emit (PrepareTransaction (prepareTimestamp s)) w"
      by (simp add: isActive_def)
    have opened: "session s' \<and>
         (\<exists>wo so. txnOpen env w s = Returned () wo so \<and>
            length (events w) < length (events wo) \<and>
            s' = setState kActive so \<and>
            w' = emit (PrepareTransaction (prepareTimestamp s)) wo)"
      if i: "state s = kInactiveInUnitOfWork"
    proof -
      from i have na: "\<not> isActive s" by (simp add: isActive_def)
      with g obtain so where o: "txnOpen env w s = Returned () wg so"
        and s': "s' = setState (if inUnitOfWork so then kActive else kActiveNotInUnitOfWork) so"
        by (auto simp: getSession_def split: Outcome.splits)
      from o have "after (txnOpen env w s) = Some (wg, so)" by simp
      from txnOpen_frame[OF this] i have "inUnitOfWork so"
        by (simp add: sameCore_def inUnitOfWork_def)
      with s' have s'': "s' = setState kActive so" by simp
      from G na have "session s'" by simp
      with o txnOpen_grows[OF o] s'' w' show ?thesis by blast
    qed
    from w' have l: "last (events w') = PrepareTransaction (prepareTimestamp s)" by simp
    from st have u': "inUnitOfWork s'" by (simp add: inUnitOfWork_def)
    show ?thesis
    proof (intro conjI)
      show "inUnitOfWork s" by (rule pre(1))
      show "\<not> isNull (prepareTimestamp s)" by (rule pre(2))
      show "\<exists>wg. getSession env w s = Returned () wg s' \<and>
            w' = emit (PrepareTransaction (prepareTimestamp s)) wg"
        using g w' by blast
      show "last (events w') = PrepareTransaction (prepareTimestamp s)" by (rule l)
      show "inUnitOfWork s'" by (rule u')
      show "state s' = kActive" by (rule st)
      show "state s = kActive \<longrightarrow>
         s' = s \<and> w' = emit (PrepareTransaction (prepareTimestamp s)) w"
        by (rule same)
      show "state s = kInactiveInUnitOfWork \<longrightarrow>
         session s' \<and>
         (\<exists>wo so. txnOpen env w s = Returned () wo so \<and>
            length (events w) < length (events wo) \<and>
            s' = setState kActive so \<and>
            w' = emit (PrepareTransaction (prepareTimestamp s)) wo)"
        using opened by (rule impI)
      show "sameCore (s\<lparr>state := kActive\<rparr>) s'" by (rule core)
    qed
  qed
  have b: "prepareUnitOfWork env w s =
        Returned () (emit (PrepareTransaction (prepareTimestamp s)) w) s"
    if "state s = kActive \<and> \<not> isNull (prepareTimestamp s) \<and> prepare_rc env = 0"
    using that by (simp add: prepareUnitOfWork_def pred_defs)
  have c: "prepareUnitOfWork env w s =
        Returned () (emit (PrepareTransaction (prepareTimestamp s)) w1) (setState kActive s1)"
    if h: "state s = kInactiveInUnitOfWork \<and> \<not> isNull (prepareTimestamp s) \<and>
        prepare_rc env = 0 \<and> txnOpen env w s = Returned () w1 s1"
  proof -
    from h have o: "txnOpen env w s = Returned () w1 s1" by simp
    then have "after (txnOpen env w s) = Some (w1, s1)" by simp
    from txnOpen_frame[OF this] h have f: "inUnitOfWork s1" "prepareTimestamp s1 = prepareTimestamp s"
      by (simp_all add: sameCore_def inUnitOfWork_def)
    from h o f have g: "getSession env w s = Returned () w1 (setState kActive s1)"
      by (simp add: getSession_def isActive_def)
    have "prepareTimestamp (setState kActive s1) = prepareTimestamp s"
      using f by (simp add: setState_def)
    with h g show ?thesis by (simp add: prepareUnitOfWork_def inUnitOfWork_def Let_def)
  qed
  show ?thesis
  proof (intro conjI)
    show "prepareUnitOfWork env w s = Returned u w' s' \<longrightarrow>
      inUnitOfWork s \<and> \<not> isNull (prepareTimestamp s) \<and>
      (\<exists>wg. getSession env w s = Returned () wg s' \<and>
            w' = emit (PrepareTransaction (prepareTimestamp s)) wg) \<and>
      last (events w') = PrepareTransaction (prepareTimestamp s) \<and>
      inUnitOfWork s' \<and> state s' = kActive \<and>
      (state s = kActive \<longrightarrow>
         s' = s \<and> w' = emit (PrepareTransaction (prepareTimestamp s)) w) \<and>
      (state s = kInactiveInUnitOfWork \<longrightarrow>
         session s' \<and>
         (\<exists>wo so. txnOpen env w s = Returned () wo so \<and>
            length (events w) < length (events wo) \<and>
            s' = setState kActive so \<and>
            w' = emit (PrepareTransaction (prepareTimestamp s)) wo)) \<and>
      sameCore (s\<lparr>state := kActive\<rparr>) s'"
      using a by (rule impI)
    show "state s = kActive \<and> \<not> isNull (prepareTimestamp s) \<and> prepare_rc env = 0 \<longrightarrow>
      prepareUnitOfWork env w s =
        Returned () (emit (PrepareTransaction (prepareTimestamp s)) w) s"
      using b by (rule impI)
    show "state s = kInactiveInUnitOfWork \<and> \<not> isNull (prepareTimestamp s) \<and>
      prepare_rc env = 0 \<and> txnOpen env w s = Returned () w1 s1 \<longrightarrow>
      prepareUnitOfWork env w s =
        Returned () (emit (PrepareTransaction (prepareTimestamp s)) w1) (setState kActive s1)"
      using c by (rule impI)
  qed
qed

text \<open>
  Scenario 4 up to the prepare, from state InactiveInUnitOfWork, and the same prepare
  after \<^verbatim>\<open>getSession\<close> has opened the transaction.
\<close>

theorem prepareUnitOfWork_keeps_unit_open_witness:
  "(case run [(okEnv, SetPrepareTimestamp 5)] freshWorld unitInWork of
      None \<Rightarrow> False
    | Some (w, s) \<Rightarrow>
        state s = kInactiveInUnitOfWork \<and> \<not> isNull (prepareTimestamp s) \<and>
        prepare_rc okEnv = 0 \<and>
        (case txnOpen okEnv w s of
           Returned u wo so \<Rightarrow>
             prepareUnitOfWork okEnv w s =
               Returned () (emit (PrepareTransaction 5) wo) (setState kActive so) \<and>
             session (setState kActive so) \<and> length (events w) < length (events wo) \<and>
             newEvents w (emit (PrepareTransaction 5) wo) =
               [SessionCacheGetSession, BeginTransaction kNoIgnore, TxnBlockDone,
                PrepareTransaction 5]
         | Threw st wo so \<Rightarrow> False
         | Fatal k wo \<Rightarrow> False)) \<and>
   (case run [(okEnv, SetPrepareTimestamp 5), (okEnv, GetSession)] freshWorld unitInWork of
      None \<Rightarrow> False
    | Some (w, s) \<Rightarrow>
        state s = kActive \<and> \<not> isNull (prepareTimestamp s) \<and> prepare_rc okEnv = 0 \<and>
        prepareUnitOfWork okEnv w s = Returned () (emit (PrepareTransaction 5) w) s \<and>
        last (events (emit (PrepareTransaction 5) w)) = PrepareTransaction 5 \<and>
        inUnitOfWork s)"
proof -
  have A: "case run [(okEnv, SetPrepareTimestamp 5)] freshWorld unitInWork of
      None \<Rightarrow> False
    | Some (w, s) \<Rightarrow>
        state s = kInactiveInUnitOfWork \<and> prepareTimestamp s = 5 \<and>
        (case txnOpen okEnv w s of
           Returned u wo so \<Rightarrow>
             newEvents w (emit (PrepareTransaction 5) wo) =
               [SessionCacheGetSession, BeginTransaction kNoIgnore, TxnBlockDone,
                PrepareTransaction 5]
         | Threw st wo so \<Rightarrow> False
         | Fatal k wo \<Rightarrow> False)"
    by code_simp
  from A obtain wa sa where
    ra: "run [(okEnv, SetPrepareTimestamp 5)] freshWorld unitInWork = Some (wa, sa)"
    by (cases "run [(okEnv, SetPrepareTimestamp 5)] freshWorld unitInWork") auto
  from A ra have fa: "state sa = kInactiveInUnitOfWork" "prepareTimestamp sa = 5" by simp_all
  then have na: "\<not> isNull (prepareTimestamp sa)" by (simp add: isNull_def)
  from A ra obtain wo so where o: "txnOpen okEnv wa sa = Returned () wo so"
    by (cases "txnOpen okEnv wa sa") auto
  from A ra o have ev: "newEvents wa (emit (PrepareTransaction 5) wo) =
               [SessionCacheGetSession, BeginTransaction kNoIgnore, TxnBlockDone,
                PrepareTransaction 5]"
    by simp
  note S = prepareUnitOfWork_keeps_unit_open[of okEnv wa sa "()"
      "emit (PrepareTransaction (prepareTimestamp sa)) wo" "setState kActive so" wo so]
  from S[THEN conjunct2, THEN conjunct2] fa(1) na okEnv_accepts(4) o
  have p1: "prepareUnitOfWork okEnv wa sa =
      Returned () (emit (PrepareTransaction (prepareTimestamp sa)) wo) (setState kActive so)"
    by blast
  from S[THEN conjunct1] p1 fa(1)
  have "session (setState kActive so) \<and>
         (\<exists>wx sx. txnOpen okEnv wa sa = Returned () wx sx \<and>
            length (events wa) < length (events wx) \<and>
            setState kActive so = setState kActive sx \<and>
            emit (PrepareTransaction (prepareTimestamp sa)) wo =
              emit (PrepareTransaction (prepareTimestamp sa)) wx)"
    by blast
  with o have q1: "session (setState kActive so)" "length (events wa) < length (events wo)"
    by auto
  have B: "case run [(okEnv, SetPrepareTimestamp 5), (okEnv, GetSession)] freshWorld unitInWork of
          None \<Rightarrow> False
        | Some (w, s) \<Rightarrow> state s = kActive \<and> prepareTimestamp s = 5"
    by code_simp
  then obtain w s where
    r: "run [(okEnv, SetPrepareTimestamp 5), (okEnv, GetSession)] freshWorld unitInWork
          = Some (w, s)"
    and f: "state s = kActive" "prepareTimestamp s = 5"
    by (cases "run [(okEnv, SetPrepareTimestamp 5), (okEnv, GetSession)] freshWorld unitInWork")
      auto
  have n: "\<not> isNull (prepareTimestamp s)" using f by (simp add: isNull_def)
  note T = prepareUnitOfWork_keeps_unit_open[of okEnv w s "()"
      "emit (PrepareTransaction (prepareTimestamp s)) w" s]
  from T[THEN conjunct2, THEN conjunct1] f n okEnv_accepts(4)
  have p: "prepareUnitOfWork okEnv w s = Returned () (emit (PrepareTransaction 5) w) s"
    by simp
  with T[THEN conjunct1] f have "last (events (emit (PrepareTransaction 5) w)) =
      PrepareTransaction 5 \<and> inUnitOfWork s"
    by simp
  with ra fa na p1 q1 ev o r f n p okEnv_accepts(4) show ?thesis by simp
qed

text \<open>
  C7. With the read source Provided, \<^verbatim>\<open>getSession\<close> on a recovery unit without an open
  transaction begins a transaction and asks the engine to set the read timestamp to
  \<open>readAtTimestamp\<close>, which is the timestamp the caller passed to
  \<^verbatim>\<open>setTimestampReadSource\<close>. If the engine accepts, the call returns with the transaction
  open. If the engine answers \<^verbatim>\<open>BadValue\<close>, the call throws \<^verbatim>\<open>SnapshotTooOld\<close>. If the
  engine answers any other error, the call throws that status, code and reason unchanged.
\<close>

theorem provided_read_timestamp:
  assumes "timestampReadSource s = kProvided" and "\<not> isActive s"
    and "\<not> isCommittingOrAborting s"
  shows "(\<forall>ts u w0 s0 w1 s1.
            setTimestampReadSource kProvided (Some ts) w0 s0 = Returned u w1 s1 \<longrightarrow>
            timestampReadSource s1 = kProvided \<and> readAtTimestamp s1 = ts) \<and>
         (case readTimestampStatus env of
            StatusOK \<Rightarrow>
              (\<exists>w' s'. getSession env w s = Returned () w' s' \<and> isActive s' \<and>
                 newEvents w w' =
                   (if session s then [] else [SessionCacheGetSession]) @
                   [BeginTransaction (ignorePrepared s),
                    SetReadTimestamp (readAtTimestamp s) False, TxnBlockDone])
          | StatusError c r \<Rightarrow>
              (\<exists>w' s'. getSession env w s =
                   Threw (if c = BadValue
                          then StatusError SnapshotTooOld
                                 (ReadTimestampTooOld (readAtTimestamp s))
                          else StatusError c r) w' s' \<and>
                 \<not> isActive s' \<and>
                 newEvents w w' =
                   (if session s then [] else [SessionCacheGetSession]) @
                   [BeginTransaction (ignorePrepared s),
                    SetReadTimestamp (readAtTimestamp s) False, TxnBlockRollback]))"
proof -
  have a: "timestampReadSource s1 = kProvided \<and> readAtTimestamp s1 = ts"
    if "setTimestampReadSource kProvided (Some ts) w0 s0 = Returned u w1 s1"
    for ts u w0 s0 w1 s1
    using that by (auto simp: setTimestampReadSource_def split: if_splits)
  obtain w1 s1 where e: "ensureSession w s = (w1, s1)" by (cases "ensureSession w s")
  define s2 where "s2 = (if shouldLogSlow env then s1\<lparr>timer := True\<rparr> else s1)"
  have f2: "timestampReadSource s2 = kProvided" "readAtTimestamp s2 = readAtTimestamp s"
    "ignorePrepared s2 = ignorePrepared s" "state s2 = state s"
    using e assms(1) by (auto simp: s2_def ensureSession_def split: if_splits)
  have ev1: "events w1 = events w @ (if session s then [] else [SessionCacheGetSession])"
    using e by (auto simp: ensureSession_def split: if_splits)
  have o: "txnOpen env w s = txnOpenProvided env w1 s2"
    using assms e f2(1) by (simp add: txnOpen_def txnOpenSwitch_def s2_def)
  have g: "getSession env w s =
      (case txnOpenProvided env w1 s2 of
         Returned u w' s' \<Rightarrow>
           Returned () w'
             (setState (if inUnitOfWork s' then kActive else kActiveNotInUnitOfWork) s')
       | Threw st w' s' \<Rightarrow> Threw st w' s'
       | Fatal k w' \<Rightarrow> Fatal k w')"
    using assms(2) o by (simp add: getSession_def)
  have b: "case readTimestampStatus env of
            StatusOK \<Rightarrow>
              (\<exists>w' s'. getSession env w s = Returned () w' s' \<and> isActive s' \<and>
                 newEvents w w' =
                   (if session s then [] else [SessionCacheGetSession]) @
                   [BeginTransaction (ignorePrepared s),
                    SetReadTimestamp (readAtTimestamp s) False, TxnBlockDone])
          | StatusError c r \<Rightarrow>
              (\<exists>w' s'. getSession env w s =
                   Threw (if c = BadValue
                          then StatusError SnapshotTooOld
                                 (ReadTimestampTooOld (readAtTimestamp s))
                          else StatusError c r) w' s' \<and>
                 \<not> isActive s' \<and>
                 newEvents w w' =
                   (if session s then [] else [SessionCacheGetSession]) @
                   [BeginTransaction (ignorePrepared s),
                    SetReadTimestamp (readAtTimestamp s) False, TxnBlockRollback])"
  proof (cases "readTimestampStatus env")
    case StatusOK
    then show ?thesis
      using g f2 ev1 assms(2)
      by (simp add: txnOpenProvided_def Let_def pred_defs newEvents_def)
  next
    case (StatusError c r)
    then show ?thesis
      using g f2 ev1 assms(2)
      by (simp add: txnOpenProvided_def Let_def pred_defs newEvents_def)
  qed
  from a b show ?thesis by blast
qed

theorem provided_read_timestamp_witness:
  "timestampReadSource (freshUnit\<lparr>timestampReadSource := kProvided, readAtTimestamp := 1\<rparr>)
     = kProvided \<and>
   isActive (freshUnit\<lparr>timestampReadSource := kProvided, readAtTimestamp := 1\<rparr>) = False \<and>
   isCommittingOrAborting (freshUnit\<lparr>timestampReadSource := kProvided, readAtTimestamp := 1\<rparr>)
     = False \<and>
   setTimestampReadSource kProvided (Some 1) freshWorld freshUnit =
     Returned () freshWorld (freshUnit\<lparr>timestampReadSource := kProvided, readAtTimestamp := 1\<rparr>) \<and>
   (\<exists>w' s'. getSession tooOldEnv freshWorld
               (freshUnit\<lparr>timestampReadSource := kProvided, readAtTimestamp := 1\<rparr>) =
             Threw (StatusError SnapshotTooOld (ReadTimestampTooOld 1)) w' s') \<and>
   (\<exists>w' s'. getSession brokenEnv freshWorld
               (freshUnit\<lparr>timestampReadSource := kProvided, readAtTimestamp := 1\<rparr>) =
             Threw (StatusError UnknownError (Message ''broken'')) w' s') \<and>
   (\<exists>w' s'. getSession okEnv freshWorld
               (freshUnit\<lparr>timestampReadSource := kProvided, readAtTimestamp := 1\<rparr>) =
             Returned () w' s' \<and> isActive s')"
proof -
  let ?s = "freshUnit\<lparr>timestampReadSource := kProvided, readAtTimestamp := 1\<rparr>"
  have h: "timestampReadSource ?s = kProvided" "\<not> isActive ?s" "\<not> isCommittingOrAborting ?s"
    by (simp_all add: freshUnit_def constructor_def fetchAndAdd_def pred_defs)
  have st: "setTimestampReadSource kProvided (Some 1) freshWorld freshUnit =
     Returned () freshWorld ?s"
    by (simp add: setTimestampReadSource_def freshUnit_def constructor_def fetchAndAdd_def
        pred_defs)
  have e: "readTimestampStatus tooOldEnv = StatusError BadValue (Message ''too old'')"
    "readTimestampStatus brokenEnv = StatusError UnknownError (Message ''broken'')"
    "readTimestampStatus okEnv = StatusOK"
    by (simp_all add: tooOldEnv_def brokenEnv_def okEnv_def)
  have r: "readAtTimestamp ?s = 1" by simp
  from provided_read_timestamp[OF h, of tooOldEnv freshWorld] e(1) r
  have 1: "\<exists>w' s'. getSession tooOldEnv freshWorld ?s =
             Threw (StatusError SnapshotTooOld (ReadTimestampTooOld 1)) w' s'"
    by auto
  from provided_read_timestamp[OF h, of brokenEnv freshWorld] e(2)
  have 2: "\<exists>w' s'. getSession brokenEnv freshWorld ?s =
             Threw (StatusError UnknownError (Message ''broken'')) w' s'"
    by auto
  from provided_read_timestamp[OF h, of okEnv freshWorld] e(3)
  have 3: "\<exists>w' s'. getSession okEnv freshWorld ?s = Returned () w' s' \<and> isActive s'"
    by auto
  from h st 1 2 3 show ?thesis by simp
qed



subsection \<open>The snapshot ids of a process\<close>

lemma constructor_ids:
  assumes "constructor w = (w', s)"
  shows "mySnapshotId s = nextSnapshotId w" and "nextSnapshotId w' = nextSnapshotId w + 1"
    and "assignedIds (events w') = assignedIds (events w) @ [nextSnapshotId w]"
  using assms by (auto simp: constructor_def fetchAndAdd_def)

lemma idStep_idsInv:
  assumes "idStep w w'" "idsInv w"
  shows "idsInv w'"
  using assms(1) unfolding idStep_def
proof
  assume "quiet w w'"
  with assms(2) show ?thesis by (simp add: quiet_def idsInv_def)
next
  assume a: "nextSnapshotId w' = nextSnapshotId w + 1 \<and>
    assignedIds (events w') = assignedIds (events w) @ [nextSnapshotId w]"
  define n where "n = length (assignedIds (events w))"
  from assms(2) have i: "assignedIds (events w) = map of_nat [1..<Suc n]"
    "nextSnapshotId w = of_nat (Suc n)"
    by (simp_all add: idsInv_def n_def)
  from a have l: "length (assignedIds (events w')) = Suc n" by (simp add: n_def)
  from a i have "assignedIds (events w') = map of_nat [1..<Suc (Suc n)]" by simp
  moreover from a i have "nextSnapshotId w' = of_nat (Suc (Suc n))" by simp
  ultimately show ?thesis unfolding idsInv_def l by simp
qed

lemma idStep_ids_grow: "idStep w w' \<Longrightarrow> set (assignedIds (events w)) \<subseteq> set (assignedIds (events w'))"
  by (auto simp: idStep_def quiet_def)

lemma idStep_take_id:
  assumes "idStep w w'"
    and "mySnapshotId s' = mySnapshotId s \<or>
         mySnapshotId s' = nextSnapshotId w \<and> nextSnapshotId w' = nextSnapshotId w + 1"
    and "mySnapshotId s \<in> set (assignedIds (events w))"
  shows "mySnapshotId s' \<in> set (assignedIds (events w'))"
  using assms by (auto simp: idStep_def quiet_def)

lemma destructor_effects:
  assumes "after (destructor env w s) = Some (w', s')"
  shows "idStep w w'"
  using assms abort_effects(1)[of env w s w' s']
  by (simp add: destructor_def split: if_splits)

text \<open>The invariant of a process: the ids are consecutive, and every unit holds one of them.\<close>

lemma pstep_inv:
  assumes "pstep a (w, rus) = Some (w', rus')" and "idsInv w"
    and "\<forall>s. Some s \<in> set rus \<longrightarrow> mySnapshotId s \<in> set (assignedIds (events w))"
  shows "idsInv w' \<and> (\<forall>s. Some s \<in> set rus' \<longrightarrow> mySnapshotId s \<in> set (assignedIds (events w')))"
proof (cases a)
  case Construct
  obtain w1 s1 where c: "constructor w = (w1, s1)" by (cases "constructor w")
  with assms(1) Construct have e: "w' = w1" "rus' = rus @ [Some s1]" by simp_all
  note C = constructor_ids[OF c]
  from C have st: "idStep w w1" by (simp add: idStep_def)
  from idStep_idsInv[OF st assms(2)] idStep_ids_grow[OF st] assms(3) C e
  show ?thesis by auto
next
  case (Operate i env op)
  with assms(1) obtain s s' where i: "i < length rus" "rus ! i = Some s"
    and st: "after (step env op w s) = Some (w', s')" and r: "rus' = rus[i := Some s']"
    by (auto split: if_splits option.splits)
  note S = step_effects(1)[OF st]
  from i have "Some s \<in> set rus" by (metis nth_mem)
  with assms(3) have "mySnapshotId s \<in> set (assignedIds (events w))" by simp
  from idStep_take_id[OF S step_snapshotId[OF st] this]
  have new: "mySnapshotId s' \<in> set (assignedIds (events w'))" .
  have "mySnapshotId x \<in> set (assignedIds (events w'))" if "Some x \<in> set rus'" for x
  proof -
    from that r have "Some x = Some s' \<or> Some x \<in> set rus"
      using set_update_subset_insert[of rus i "Some s'"] by auto
    with new assms(3) idStep_ids_grow[OF S] show ?thesis by auto
  qed
  with idStep_idsInv[OF S assms(2)] show ?thesis by simp
next
  case (Destroy i env)
  with assms(1) obtain s s' where i: "i < length rus" "rus ! i = Some s"
    and st: "after (destructor env w s) = Some (w', s')" and r: "rus' = rus[i := None]"
    by (auto split: if_splits option.splits)
  note S = destructor_effects[OF st]
  have "mySnapshotId x \<in> set (assignedIds (events w'))" if "Some x \<in> set rus'" for x
  proof -
    from that r have "Some x \<in> set rus"
      using set_update_subset_insert[of rus i None] by auto
    with assms(3) idStep_ids_grow[OF S] show ?thesis by auto
  qed
  with idStep_idsInv[OF S assms(2)] show ?thesis by simp
qed

lemma prun_inv:
  "prun acts (w, rus) = Some (w', rus') \<Longrightarrow> idsInv w \<Longrightarrow>
   \<forall>s. Some s \<in> set rus \<longrightarrow> mySnapshotId s \<in> set (assignedIds (events w)) \<Longrightarrow>
   idsInv w' \<and> (\<forall>s. Some s \<in> set rus' \<longrightarrow> mySnapshotId s \<in> set (assignedIds (events w')))"
proof (induction acts arbitrary: w rus)
  case Nil
  then show ?case by simp
next
  case (Cons a acts)
  from Cons.prems(1) obtain w1 rus1 where p: "pstep a (w, rus) = Some (w1, rus1)"
    and r: "prun acts (w1, rus1) = Some (w', rus')"
    by (auto split: option.splits)
  from pstep_inv[OF p Cons.prems(2,3)] Cons.IH[OF r] show ?case by blast
qed

lemma idsInv_initialWorld: "idsInv initialWorld"
  by (simp add: idsInv_def initialWorld_def)

lemma of_nat_upt_sorted:
  assumes "n \<le> 2 ^ 64"
  shows "sorted_wrt (<) (map (of_nat :: nat \<Rightarrow> 64 word) [m..<n])"
proof -
  have "sorted_wrt (\<lambda>x y. (of_nat x :: 64 word) < of_nat y) [m..<n]"
  proof (rule sorted_wrt_mono_rel[OF _ sorted_wrt_upt])
    fix x y assume "x \<in> set [m..<n]" "y \<in> set [m..<n]" "x < y"
    with assms have "x < 2 ^ 64" "y < 2 ^ 64" by simp_all
    with \<open>x < y\<close> show "(of_nat x :: 64 word) < of_nat y"
      by (simp add: word_of_nat_less_iff take_bit_nat_eq_self)
  qed
  then show ?thesis by (simp add: sorted_wrt_map)
qed

text \<open>
  C8. Snapshot ids come from one process-wide counter, the 64-bit \<^verbatim>\<open>nextSnapshotId\<close> that
  starts at 1: the constructor and every transaction close that returns give the recovery
  unit the value of the counter and add one to it, and nothing else changes the counter.
  So, whatever the recovery units of the process do, the ids handed out so far are
  1, 2, 3, ... in that order, and every recovery unit holds one of them. In every run that
  has handed out fewer than \<open>2^64\<close> ids, a later id is strictly greater than an earlier
  one and no id is used twice.
\<close>

theorem snapshot_ids_consecutive:
  assumes "prun acts (initialWorld, []) = Some (w, rus)"
  shows "assignedIds (events w) = map of_nat [1..<Suc (length (assignedIds (events w)))] \<and>
         nextSnapshotId w = of_nat (Suc (length (assignedIds (events w)))) \<and>
         (\<forall>s. Some s \<in> set rus \<longrightarrow> mySnapshotId s \<in> set (assignedIds (events w))) \<and>
         (\<forall>w0 w1 s1. constructor w0 = (w1, s1) \<longrightarrow>
            mySnapshotId s1 = nextSnapshotId w0 \<and> nextSnapshotId w1 = nextSnapshotId w0 + 1) \<and>
         (\<forall>env c w0 s0 u w1 s1. txnClose env c w0 s0 = Returned u w1 s1 \<longrightarrow>
            mySnapshotId s1 = nextSnapshotId w0 \<and> nextSnapshotId w1 = nextSnapshotId w0 + 1) \<and>
         (length (assignedIds (events w)) < 2 ^ 64 \<longrightarrow>
            sorted_wrt (<) (assignedIds (events w)) \<and> distinct (assignedIds (events w)))"
proof -
  from prun_inv[OF assms idsInv_initialWorld]
  have i: "idsInv w"
    and u: "\<forall>s. Some s \<in> set rus \<longrightarrow> mySnapshotId s \<in> set (assignedIds (events w))"
    by simp_all
  from i have ids: "assignedIds (events w) = map of_nat [1..<Suc (length (assignedIds (events w)))]"
    and nx: "nextSnapshotId w = of_nat (Suc (length (assignedIds (events w))))"
    by (simp_all add: idsInv_def)
  have c: "mySnapshotId s1 = nextSnapshotId w0 \<and> nextSnapshotId w1 = nextSnapshotId w0 + 1"
    if "constructor w0 = (w1, s1)" for w0 w1 s1
    using constructor_ids[OF that] by simp
  have t: "mySnapshotId s1 = nextSnapshotId w0 \<and> nextSnapshotId w1 = nextSnapshotId w0 + 1"
    if "txnClose env c w0 s0 = Returned u w1 s1" for env c w0 s0 u w1 s1
    using txnClose_Returned(3,4)[OF that] by simp
  have s: "sorted_wrt (<) (assignedIds (events w)) \<and> distinct (assignedIds (events w))"
    if "length (assignedIds (events w)) < 2 ^ 64"
  proof -
    from that have "Suc (length (assignedIds (events w))) \<le> 2 ^ 64" by simp
    from of_nat_upt_sorted[OF this, of 1] ids
    have "sorted_wrt (<) (assignedIds (events w))" by simp
    then show ?thesis by (simp add: strict_sorted_iff)
  qed
  from ids nx u c t s show ?thesis by blast
qed

theorem snapshot_ids_consecutive_witness:
  "case prun twoUnits (initialWorld, []) of
     None \<Rightarrow> False
   | Some (w, rus) \<Rightarrow>
       assignedIds (events w) = [1, 2, 3] \<and> nextSnapshotId w = 4 \<and>
       sorted_wrt (<) (assignedIds (events w)) \<and> distinct (assignedIds (events w))"
proof -
  have "case prun twoUnits (initialWorld, []) of
          None \<Rightarrow> False
        | Some (w, rus) \<Rightarrow> length (assignedIds (events w)) = 3"
    by code_simp
  then obtain w rus where r: "prun twoUnits (initialWorld, []) = Some (w, rus)"
    and l: "length (assignedIds (events w)) = 3"
    by (cases "prun twoUnits (initialWorld, [])") auto
  note T = snapshot_ids_consecutive[OF r, unfolded l]
  have lt: "(3::nat) < 2 ^ 64" by simp
  from T lt have c: "sorted_wrt (<) (assignedIds (events w)) \<and>
      distinct (assignedIds (events w))"
    by blast
  from T have a: "assignedIds (events w) = map of_nat [1..<Suc 3]" by blast
  from T have b: "nextSnapshotId w = of_nat (Suc 3)" by blast
  have u: "[1..<Suc 3] = [1, 2, 3]" by (simp add: upt_rec)
  have a': "assignedIds (events w) = [1, 2, 3]" unfolding a u by simp
  from b have b': "nextSnapshotId w = 4" by simp
  from c a' have c': "sorted_wrt (<) [1, 2, 3 :: 64 word] \<and> distinct [1, 2, 3 :: 64 word]"
    by simp
  from r a' b' c' show ?thesis by simp
qed

text \<open>
  C5. After any sequence of operations on a recovery unit during which no fatal assertion
  fails (an operation may throw a status), the commit timestamp and the last timestamp set
  are not both there. The three guards: \<^verbatim>\<open>setTimestamp\<close> fails a fatal assertion when the
  commit timestamp is set, \<^verbatim>\<open>setCommitTimestamp\<close> fails one when the last timestamp is
  set, and a transaction close that returns leaves the last timestamp empty.
\<close>

theorem commitTimestamp_and_lastTimestampSet_exclusive:
  assumes "constructor wi = (w0, s0)" and "run ops w0 s0 = Some (w, s)"
  shows "\<not> (\<not> isNull (commitTimestamp s) \<and> lastTimestampSet s \<noteq> None) \<and>
         (\<forall>env ts w1 s1. \<not> isNull (commitTimestamp s1) \<longrightarrow>
            setTimestamp env ts w1 s1 = Fatal Invariant (fst (ensureSession w1 s1))) \<and>
         (\<forall>ts w1 s1. lastTimestampSet s1 \<noteq> None \<longrightarrow>
            setCommitTimestamp ts w1 s1 = Fatal Invariant w1) \<and>
         (\<forall>env c w1 s1 u w2 s2. txnClose env c w1 s1 = Returned u w2 s2 \<longrightarrow>
            lastTimestampSet s2 = None)"
proof -
  from constructor_ruInv[OF assms(1)] run_ruInv[OF assms(2)] have "ruInv s" by simp
  then have a: "\<not> (\<not> isNull (commitTimestamp s) \<and> lastTimestampSet s \<noteq> None)"
    by (auto simp: ruInv_def)
  have b: "setTimestamp env ts w1 s1 = Fatal Invariant (fst (ensureSession w1 s1))"
    if "\<not> isNull (commitTimestamp s1)" for env ts w1 s1
  proof -
    obtain w2 s2 where e: "ensureSession w1 s1 = (w2, s2)" by (cases "ensureSession w1 s1")
    from ensureSession_frame[OF e] that have "\<not> isNull (commitTimestamp s2)"
      by (simp add: sameCore_def)
    with e show ?thesis by (simp add: setTimestamp_def)
  qed
  have c: "setCommitTimestamp ts w1 s1 = Fatal Invariant w1" if "lastTimestampSet s1 \<noteq> None"
    for ts w1 s1
    using that by (simp add: setCommitTimestamp_def)
  have d: "lastTimestampSet s2 = None" if "txnClose env c w1 s1 = Returned u w2 s2"
    for env c w1 s1 u w2 s2
    using txnClose_Returned(4)[OF that] by simp
  from a b c d show ?thesis by blast
qed

theorem commitTimestamp_and_lastTimestampSet_exclusive_witness:
  "constructor initialWorld = (freshWorld, freshUnit) \<and>
   (case run [(okEnv, BeginUnitOfWork), (okEnv, SetTimestamp 7)] freshWorld freshUnit of
      None \<Rightarrow> False
    | Some (w, s) \<Rightarrow>
        lastTimestampSet s = Some 7 \<and> isNull (commitTimestamp s) \<and>
        setCommitTimestamp 9 w s = Fatal Invariant w \<and>
        (case txnClose okEnv True w s of
           Returned u w' s' \<Rightarrow> lastTimestampSet s' = None
         | Threw st w' s' \<Rightarrow> False
         | Fatal k w' \<Rightarrow> False))"
proof -
  have c: "constructor initialWorld = (freshWorld, freshUnit)"
    by (simp add: freshWorld_def freshUnit_def)
  have "case run [(okEnv, BeginUnitOfWork), (okEnv, SetTimestamp 7)] freshWorld freshUnit of
          None \<Rightarrow> False
        | Some (w, s) \<Rightarrow>
            lastTimestampSet s = Some 7 \<and>
            (case txnClose okEnv True w s of
               Returned u w' s' \<Rightarrow> True | Threw st w' s' \<Rightarrow> False | Fatal k w' \<Rightarrow> False)"
    by code_simp
  note e = this
  from e obtain w s where
    r: "run [(okEnv, BeginUnitOfWork), (okEnv, SetTimestamp 7)] freshWorld freshUnit = Some (w, s)"
    by (cases "run [(okEnv, BeginUnitOfWork), (okEnv, SetTimestamp 7)] freshWorld freshUnit") auto
  from e r have l: "lastTimestampSet s = Some 7" by simp
  from e r obtain w' s' where k: "txnClose okEnv True w s = Returned () w' s'"
    by (cases "txnClose okEnv True w s") auto
  note T = commitTimestamp_and_lastTimestampSet_exclusive[OF c r]
  from T l have 1: "isNull (commitTimestamp s)" by auto
  from T l have 2: "setCommitTimestamp 9 w s = Fatal Invariant w" by auto
  from T k have 3: "lastTimestampSet s' = None" by blast
  from c r l k 1 2 3 show ?thesis by simp
qed

text \<open>
  C10. The destructor of a recovery unit that is in a unit of work (state
  InactiveInUnitOfWork or Active) fails a fatal assertion. Otherwise it is \<^verbatim>\<open>_abort\<close>: on
  a recovery unit reached by any sequence of operations the change list is then empty, so
  when the destructor returns it has called no handler, it has not committed, and it has
  rolled back exactly when a transaction was open. It returns when the engine accepts the
  rollback.
\<close>

theorem destructor_aborts:
  assumes "constructor wi = (w0, s0)" and "run ops w0 s0 = Some (w, s)"
  shows "(inUnitOfWork s \<longrightarrow> destructor env w s = Fatal Invariant w) \<and>
         (\<not> inUnitOfWork s \<longrightarrow>
            destructor env w s = abort env w s \<and> changes s = [] \<and>
            (\<forall>u w' s'. destructor env w s = Returned u w' s' \<longrightarrow>
               filter isChangeEvent (newEvents w w') = [] \<and>
               count_list (newEvents w w') CommitTransaction = 0 \<and>
               count_list (newEvents w w') RollbackTransaction = (if isActive s then 1 else 0)) \<and>
            (rollback_rc env = 0 \<longrightarrow> (\<exists>w' s'. destructor env w s = Returned () w' s')))"
proof -
  from constructor_ruInv[OF assms(1)] run_ruInv[OF assms(2)] have inv: "ruInv s" by simp
  have a: "destructor env w s = Fatal Invariant w" if "inUnitOfWork s"
    using that by (simp add: destructor_def)
  have b: "destructor env w s = abort env w s \<and> changes s = [] \<and>
            (\<forall>u w' s'. destructor env w s = Returned u w' s' \<longrightarrow>
               filter isChangeEvent (newEvents w w') = [] \<and>
               count_list (newEvents w w') CommitTransaction = 0 \<and>
               count_list (newEvents w w') RollbackTransaction = (if isActive s then 1 else 0)) \<and>
            (rollback_rc env = 0 \<longrightarrow> (\<exists>w' s'. destructor env w s = Returned () w' s'))"
    if n: "\<not> inUnitOfWork s"
  proof -
    from n have d: "destructor env w s = abort env w s" by (simp add: destructor_def)
    from inv n have ch: "changes s = []" and se: "session s \<or> \<not> isActive s"
      and ts: "lastTimestampSet s = None \<or> isNull (commitTimestamp s)"
      by (auto simp: ruInv_def)
    have t: "filter isChangeEvent (newEvents w w') = [] \<and>
               count_list (newEvents w w') CommitTransaction = 0 \<and>
               count_list (newEvents w w') RollbackTransaction = (if isActive s then 1 else 0)"
      if "destructor env w s = Returned u w' s'" for u w' s'
    proof -
      from that d have "abort env w s = Returned u w' s'" by simp
      from abort_trace(1,4,5)[OF this] ch se show ?thesis by auto
    qed
    have r: "\<exists>w' s'. destructor env w s = Returned () w' s'" if "rollback_rc env = 0"
      using abort_returns[OF se ts that, of w] ch d by simp
    from d ch t r show ?thesis by blast
  qed
  from a b show ?thesis by blast
qed

theorem destructor_aborts_witness:
  "constructor initialWorld = (freshWorld, freshUnit) \<and>
   (case run [(okEnv, BeginUnitOfWork)] freshWorld freshUnit of
      None \<Rightarrow> False
    | Some (w, s) \<Rightarrow> inUnitOfWork s \<and> destructor okEnv w s = Fatal Invariant w) \<and>
   (case run [(okEnv, GetSession)] freshWorld freshUnit of
      None \<Rightarrow> False
    | Some (w, s) \<Rightarrow>
        inUnitOfWork s = False \<and> isActive s \<and> rollback_rc okEnv = 0 \<and>
        (case destructor okEnv w s of
           Returned u w' s' \<Rightarrow>
             filter isChangeEvent (newEvents w w') = [] \<and>
             count_list (newEvents w w') CommitTransaction = 0 \<and>
             count_list (newEvents w w') RollbackTransaction = 1
         | Threw st w' s' \<Rightarrow> False
         | Fatal k w' \<Rightarrow> False))"
proof -
  have c: "constructor initialWorld = (freshWorld, freshUnit)"
    by (simp add: freshWorld_def freshUnit_def)
  have "case run [(okEnv, BeginUnitOfWork)] freshWorld freshUnit of
          None \<Rightarrow> False | Some (w, s) \<Rightarrow> inUnitOfWork s"
    by code_simp
  then obtain w1 s1 where r1: "run [(okEnv, BeginUnitOfWork)] freshWorld freshUnit = Some (w1, s1)"
    and u1: "inUnitOfWork s1"
    by (cases "run [(okEnv, BeginUnitOfWork)] freshWorld freshUnit") auto
  have "case run [(okEnv, GetSession)] freshWorld freshUnit of
          None \<Rightarrow> False | Some (w, s) \<Rightarrow> \<not> inUnitOfWork s \<and> isActive s"
    by code_simp
  then obtain w2 s2 where r2: "run [(okEnv, GetSession)] freshWorld freshUnit = Some (w2, s2)"
    and u2: "\<not> inUnitOfWork s2" "isActive s2"
    by (cases "run [(okEnv, GetSession)] freshWorld freshUnit") auto
  from destructor_aborts[OF c r1, of okEnv] u1
  have 1: "destructor okEnv w1 s1 = Fatal Invariant w1" by simp
  note T = destructor_aborts[OF c r2, of okEnv]
  from T u2 okEnv_accepts(2) obtain w' s' where d: "destructor okEnv w2 s2 = Returned () w' s'"
    by blast
  from T u2 d have 2: "filter isChangeEvent (newEvents w2 w') = [] \<and>
             count_list (newEvents w2 w') CommitTransaction = 0 \<and>
             count_list (newEvents w2 w') RollbackTransaction = 1"
    by simp
  from c r1 u1 1 r2 u2 d 2 okEnv_accepts(2) show ?thesis by simp
qed

end
